theory Spec2Isabelle
  imports Complex_Main "HOL-Library.Multiset" "HOL-Library.Sublist" "HOL-Library.Log_Nat"
begin

section \<open>imagescale-q-m.py: values, errors and the external collaborators\<close>

text \<open>
  The program scales a directory of images with a pool of worker processes that share a
  \<^verbatim>\<open>multiprocessing.JoinableQueue\<close> of jobs and a \<^verbatim>\<open>multiprocessing.Queue\<close>
  of results. Python exceptions are values of \<open>error\<close>; \<open>ImageError\<close> carries
  \<^verbatim>\<open>str(err)\<close> of an \<^verbatim>\<open>Image.Error\<close>.
\<close>

datatype error =
    ImageError string
  | ZeroDivisionError
  | OverflowError
  | UnboundLocalError
  | KeyboardInterrupt
  | ValueError
  | AttributeError
  | OSError string

type_synonym path = string

text \<open>A job is the tuple \<^verbatim>\<open>(sourceImage, targetImage)\<close> put on the jobs queue.\<close>

type_synonym job = "path \<times> path"

text \<open>
  \<^verbatim>\<open>Result = namedtuple("Result", "copied scaled name")\<close> and
  \<^verbatim>\<open>Summary = namedtuple("Summary", "todo copied scaled canceled")\<close>.
\<close>

datatype result = Result (copied: int) (scaled: int) (name: path)

datatype summary = Summary (todo: int) (copied: int) (scaled: int) (canceled: bool)

text \<open>
  The module \<^verbatim>\<open>Image\<close> is not part of the sources, so its operations are parameters.
  \<open>'img\<close> is an image object, \<open>'fs\<close> the contents of the file system.
  Every operation may raise; a failed \<^verbatim>\<open>save\<close> may still have touched the files.
\<close>

record ('img, 'fs) image_lib =
  from_file :: "'fs \<Rightarrow> path \<Rightarrow> error + 'img"
  width :: "'img \<Rightarrow> int"
  height :: "'img \<Rightarrow> int"
  scale_img :: "'img \<Rightarrow> rat \<Rightarrow> error + 'img"
  subsample :: "'img \<Rightarrow> int \<Rightarrow> error + 'img"
  save :: "'fs \<Rightarrow> 'img \<Rightarrow> path \<Rightarrow> error option \<times> 'fs"

text \<open>
  A Python float is a binary64 number; its value is kept as the rational it denotes.
  \<open>binary64\<close> rounds a rational to the nearest binary64 value, ties to the even
  significand: with \<open>e\<close> the exponent of the leading bit, the significand has 53 bits, so
  the result is a multiple of \<open>2 powi (e - 52)\<close>, and of \<open>2 powi (- 1074)\<close> in the
  subnormal range; a result of \<open>2 powi 1024\<close> or more does not fit
  (\<^verbatim>\<open>OverflowError\<close>).
\<close>

definition round_half_even :: "rat \<Rightarrow> int" where
  "round_half_even y =
     (let f = \<lfloor>y\<rfloor>; d = y - of_int f
      in if d < 1 / 2 then f else if 1 / 2 < d then f + 1 else if even f then f else f + 1)"

definition floor_log2 :: "rat \<Rightarrow> int" where
  "floor_log2 x =
     (case quotient_of x of
        (a, b) \<Rightarrow> (let k = bitlen a - bitlen b in if 2 powi k \<le> x then k else k - 1))"

definition binary64 :: "rat \<Rightarrow> error + rat" where
  "binary64 x =
     (if x = 0 then Inr 0
      else
        (let q = max (floor_log2 \<bar>x\<bar>) (- 1022) - 52;
             r = of_int (round_half_even (\<bar>x\<bar> / 2 powi q)) * 2 powi q
         in if 2 powi 1024 \<le> r then Inl OverflowError else Inr (sgn x * r)))"

text \<open>
  Python 3's \<^verbatim>\<open>a / b\<close> on two ints: \<^verbatim>\<open>ZeroDivisionError\<close> when \<open>b = 0\<close>,
  otherwise the exact quotient correctly rounded to a float.
\<close>

definition truediv :: "int \<Rightarrow> int \<Rightarrow> error + rat" where
  "truediv a b = (if b = 0 then Inl ZeroDivisionError else binary64 (of_int a / of_int b))"

text \<open>\<^verbatim>\<open>posixpath.join(a, b)\<close> and \<^verbatim>\<open>posixpath.basename(p)\<close>.\<close>

definition path_join :: "path \<Rightarrow> path \<Rightarrow> path" where
  "path_join a b =
     (if b \<noteq> [] \<and> hd b = CHR ''/'' then b
      else if a = [] \<or> last a = CHR ''/'' then a @ b
      else a @ ''/'' @ b)"

definition basename :: "path \<Rightarrow> path" where
  "basename p = rev (takeWhile (\<lambda>c. c \<noteq> CHR ''/'') (rev p))"

section \<open>scale_one\<close>

text \<open>
  Line 117: \<^verbatim>\<open>scale = min(size / oldImage.width, size / oldImage.height)\<close>.
  Both quotients are evaluated, left to right, before \<^verbatim>\<open>min\<close> is called;
  \<^verbatim>\<open>min\<close> of two floats is exact.
\<close>

definition smooth_factor :: "int \<Rightarrow> int \<Rightarrow> int \<Rightarrow> error + rat" where
  "smooth_factor sz w h =
     (case truediv sz w of
        Inl e \<Rightarrow> Inl e
      | Inr a \<Rightarrow> (case truediv sz h of
                   Inl e \<Rightarrow> Inl e
                 | Inr b \<Rightarrow> Inr (min a b)))"

text \<open>
  Lines 120-121:
  \<^verbatim>\<open>stride = int(math.ceil(max(oldImage.width / size, oldImage.height / size)))\<close>.
  \<^verbatim>\<open>max\<close>, \<^verbatim>\<open>math.ceil\<close> and \<^verbatim>\<open>int\<close> are exact on floats.
\<close>

definition subsample_stride :: "int \<Rightarrow> int \<Rightarrow> int \<Rightarrow> error + int" where
  "subsample_stride sz w h =
     (case truediv w sz of
        Inl e \<Rightarrow> Inl e
      | Inr a \<Rightarrow> (case truediv h sz of
                   Inl e \<Rightarrow> Inl e
                 | Inr b \<Rightarrow> Inr \<lceil>max a b\<rceil>))"

text \<open>
  \<^verbatim>\<open>image.save(targetImage); return Result(c, s, targetImage)\<close>: the tail shared by
  both branches of \<^verbatim>\<open>scale_one\<close>.
\<close>

definition save_as ::
  "('img, 'fs) image_lib \<Rightarrow> 'fs \<Rightarrow> 'img \<Rightarrow> path \<Rightarrow> int \<Rightarrow> int \<Rightarrow> (error + result) \<times> 'fs" where
  "save_as lib fs img targetImage c s =
     (case save lib fs img targetImage of
        (Some e, fs') \<Rightarrow> (Inl e, fs')
      | (None, fs') \<Rightarrow> (Inr (Result c s targetImage), fs'))"

definition scale_one ::
  "('img, 'fs) image_lib \<Rightarrow> int \<Rightarrow> bool \<Rightarrow> path \<Rightarrow> path \<Rightarrow> 'fs \<Rightarrow> (error + result) \<times> 'fs" where
  "scale_one lib sz smooth sourceImage targetImage fs =
     (case from_file lib fs sourceImage of
        Inl e \<Rightarrow> (Inl e, fs)
      | Inr oldImage \<Rightarrow>
          if width lib oldImage \<le> sz \<and> height lib oldImage \<le> sz then
            save_as lib fs oldImage targetImage 1 0
          else
            (case (if smooth then
                     (case smooth_factor sz (width lib oldImage) (height lib oldImage) of
                        Inl e \<Rightarrow> Inl e
                      | Inr factor \<Rightarrow> scale_img lib oldImage factor)
                   else
                     (case subsample_stride sz (width lib oldImage) (height lib oldImage) of
                        Inl e \<Rightarrow> Inl e
                      | Inr stride \<Rightarrow> subsample lib oldImage stride)) of
               Inl e \<Rightarrow> (Inl e, fs)
             | Inr newImage \<Rightarrow> save_as lib fs newImage targetImage 0 1))"

section \<open>The two queues and add_jobs\<close>

text \<open>
  \<^verbatim>\<open>multiprocessing.JoinableQueue\<close>: the items put and not yet retrieved, and the
  count of unfinished tasks (a semaphore). \<^verbatim>\<open>put\<close> appends and counts up,
  \<^verbatim>\<open>get\<close> blocks while there is no item (no value: \<open>None\<close>), \<^verbatim>\<open>task_done\<close>
  counts down and raises \<^verbatim>\<open>ValueError\<close> when the count is already zero,
  \<^verbatim>\<open>join\<close> returns once the count is zero.

  A \<^verbatim>\<open>multiprocessing\<close> queue hands an item that was put to a feeder thread of the
  putting process, which writes it to the pipe later. For the jobs the only reader is the
  blocking \<^verbatim>\<open>get\<close>, which waits for the pipe, so \<open>items\<close> holds the jobs of the
  buffer and of the pipe together and \<open>get\<close> stands for the feeder's write followed by
  the read. The result queue is read with \<^verbatim>\<open>empty()\<close>, which does not wait and sees
  the pipe only; there the buffers are part of the state (\<open>buffers\<close> below).
\<close>

record joinable_queue =
  items :: "job list"
  unfinished :: nat

definition put :: "job \<Rightarrow> joinable_queue \<Rightarrow> joinable_queue" where
  "put j q = q\<lparr>items := items q @ [j], unfinished := Suc (unfinished q)\<rparr>"

definition get :: "joinable_queue \<Rightarrow> (job \<times> joinable_queue) option" where
  "get q = (case items q of [] \<Rightarrow> None | j # js \<Rightarrow> Some (j, q\<lparr>items := js\<rparr>))"

definition task_done :: "joinable_queue \<Rightarrow> error + joinable_queue" where
  "task_done q =
     (if unfinished q = 0 then Inl ValueError
      else Inr (q\<lparr>unfinished := unfinished q - 1\<rparr>))"

text \<open>\<^verbatim>\<open>enumerate(xs, start=n)\<close>.\<close>

fun py_enumerate :: "int \<Rightarrow> 'a list \<Rightarrow> (int \<times> 'a) list" where
  "py_enumerate n [] = []"
| "py_enumerate n (x # xs) = (n, x) # py_enumerate (n + 1) xs"

text \<open>The body of the loop of \<^verbatim>\<open>add_jobs\<close> (lines 104-106).\<close>

definition add_job :: "path \<Rightarrow> path \<Rightarrow> string \<Rightarrow> joinable_queue \<Rightarrow> joinable_queue" where
  "add_job src tgt nm q = put (path_join src nm, path_join tgt nm) q"

text \<open>
  The loop of \<^verbatim>\<open>add_jobs\<close>. The third argument is what is left of the enumeration, the
  fourth the loop variable \<^verbatim>\<open>todo\<close>: \<open>None\<close> while no iteration has bound it.
\<close>

fun add_jobs_loop ::
  "path \<Rightarrow> path \<Rightarrow> (int \<times> string) list \<Rightarrow> int option \<Rightarrow> joinable_queue
     \<Rightarrow> int option \<times> joinable_queue" where
  "add_jobs_loop src tgt [] bound_todo q = (bound_todo, q)"
| "add_jobs_loop src tgt ((i, nm) # rest) bound_todo q =
     add_jobs_loop src tgt rest (Some i) (add_job src tgt nm q)"

text \<open>
  \<^verbatim>\<open>add_jobs(source, target, jobs)\<close>; \<^verbatim>\<open>os.listdir\<close> is a parameter.
  \<^verbatim>\<open>return todo\<close> raises \<^verbatim>\<open>UnboundLocalError\<close> when the loop never ran.
\<close>

definition add_jobs ::
  "(path \<Rightarrow> error + string list) \<Rightarrow> path \<Rightarrow> path \<Rightarrow> joinable_queue
     \<Rightarrow> (error + int) \<times> joinable_queue" where
  "add_jobs os_listdir src tgt q =
     (case os_listdir src of
        Inl e \<Rightarrow> (Inl e, q)
      | Inr names \<Rightarrow>
          (case add_jobs_loop src tgt (py_enumerate 1 names) None q of
             (None, q') \<Rightarrow> (Inl UnboundLocalError, q')
           | (Some n, q') \<Rightarrow> (Inr n, q')))"

section \<open>The batch as a transition system\<close>

text \<open>
  What one call of \<^verbatim>\<open>scale(size, smooth, source, target, concurrency)\<close> runs with: the
  image library, the directory listing, and its five arguments (\<open>bound\<close> is
  \<^verbatim>\<open>size\<close>).
\<close>

record ('img, 'fs) setting =
  lib :: "('img, 'fs) image_lib"
  listdir :: "path \<Rightarrow> error + string list"
  bound :: int
  smooth :: bool
  source :: path
  target :: path
  concurrency :: int

text \<open>
  A worker process is at one of three places of its \<^verbatim>\<open>while True\<close> loop, or has ended:
  blocked in \<^verbatim>\<open>jobs.get()\<close>; holding a job, before the inner \<^verbatim>\<open>try\<close>; in the
  \<^verbatim>\<open>finally\<close> clause, before \<^verbatim>\<open>jobs.task_done()\<close>, with the exception that the
  inner \<^verbatim>\<open>try\<close> did not catch (if any); or ended by an exception that left the loop.
\<close>

datatype worker =
    Waiting
  | Processing job
  | Finishing job "error option"
  | Crashed error

text \<open>
  The coordinator (\<^verbatim>\<open>scale\<close>): starting the remaining processes; inside the loop of
  \<^verbatim>\<open>add_jobs\<close>; blocked in \<^verbatim>\<open>jobs.join()\<close> with \<^verbatim>\<open>todo\<close>; in the drain loop
  with \<^verbatim>\<open>todo\<close>, \<^verbatim>\<open>canceled\<close>, \<^verbatim>\<open>copied\<close>, \<^verbatim>\<open>scaled\<close>; returned; or left by
  an exception.
\<close>

datatype coordinator =
    Creating nat
  | Adding "(int \<times> string) list" "int option"
  | Joining int
  | Draining int bool int int
  | Returned summary
  | Raised error

text \<open>
  The state of all processes. The result queue (\<^verbatim>\<open>multiprocessing.Queue\<close>) is
  \<open>results\<close>, the items in its pipe, which is what \<^verbatim>\<open>results.empty()\<close> and
  \<^verbatim>\<open>results.get_nowait()\<close> see, and \<open>buffers\<close>, for every worker process the
  results it has put that its feeder thread has not yet written to the pipe.
  \<open>reports\<close> are the lines given to \<^verbatim>\<open>Qtrac.report\<close> (message, error flag). The
  last four fields are history only, read by no transition: the jobs put so far, the
  outcome of every finished inner \<^verbatim>\<open>try\<close>, the jobs for which \<^verbatim>\<open>task_done\<close>
  has been called, and the results taken by the coordinator.
\<close>

record 'fs state =
  files :: 'fs
  jobs :: joinable_queue
  results :: "result list"
  buffers :: "result list list"
  workers :: "worker list"
  coord :: coordinator
  reports :: "(string \<times> bool) list"
  enqueued :: "job list"
  outcomes :: "(job \<times> (error + result)) list"
  acked :: "job list"
  drained :: "result list"

text \<open>The state at the entry of \<^verbatim>\<open>scale\<close>; \<^verbatim>\<open>range(concurrency)\<close> is empty for
  \<open>concurrency \<le> 0\<close>.\<close>

definition scale_start :: "('img, 'fs) setting \<Rightarrow> 'fs \<Rightarrow> 'fs state" where
  "scale_start cfg fs =
     \<lparr>files = fs, jobs = \<lparr>items = [], unfinished = 0\<rparr>, results = [], buffers = [],
      workers = [],
      coord = Creating (nat (concurrency cfg)), reports = [],
      enqueued = [], outcomes = [], acked = [], drained = []\<rparr>"

text \<open>
  One atomic action of the coordinator; \<open>None\<close> when it is blocked or has ended. A new
  process starts with an empty buffer. In the drain loop (lines 71-74)
  \<^verbatim>\<open>results.empty()\<close> is true when the pipe holds no item, whatever the workers'
  buffers hold.
\<close>

fun coord_step :: "('img, 'fs) setting \<Rightarrow> coordinator \<Rightarrow> 'fs state \<Rightarrow> 'fs state option" where
  "coord_step cfg (Creating (Suc k)) s =
     Some (s\<lparr>workers := workers s @ [Waiting], buffers := buffers s @ [[]],
             coord := Creating k\<rparr>)"
| "coord_step cfg (Creating 0) s =
     (case listdir cfg (source cfg) of
        Inl e \<Rightarrow> Some (s\<lparr>coord := Raised e\<rparr>)
      | Inr names \<Rightarrow> Some (s\<lparr>coord := Adding (py_enumerate 1 names) None\<rparr>))"
| "coord_step cfg (Adding ((i, nm) # rest) bound_todo) s =
     Some (s\<lparr>jobs := add_job (source cfg) (target cfg) nm (jobs s),
             enqueued := enqueued s @ [(path_join (source cfg) nm, path_join (target cfg) nm)],
             coord := Adding rest (Some i)\<rparr>)"
| "coord_step cfg (Adding [] None) s = Some (s\<lparr>coord := Raised UnboundLocalError\<rparr>)"
| "coord_step cfg (Adding [] (Some n)) s = Some (s\<lparr>coord := Joining n\<rparr>)"
| "coord_step cfg (Joining n) s =
     (if unfinished (jobs s) = 0 then Some (s\<lparr>coord := Draining n False 0 0\<rparr>) else None)"
| "coord_step cfg (Draining n c cp sc) s =
     (case results s of
        [] \<Rightarrow> Some (s\<lparr>coord := Returned (Summary n cp sc c)\<rparr>)
      | r # rs \<Rightarrow>
          Some (s\<lparr>results := rs, drained := drained s @ [r],
                  coord := Draining n c (cp + result.copied r) (sc + result.scaled r)\<rparr>))"
| "coord_step cfg (Returned sm) s = None"
| "coord_step cfg (Raised e) s = None"

text \<open>
  \<^verbatim>\<open>KeyboardInterrupt\<close> in the coordinator: caught only around \<^verbatim>\<open>jobs.join()\<close>.
\<close>

fun interrupt_step :: "coordinator \<Rightarrow> 'fs state \<Rightarrow> 'fs state option" where
  "interrupt_step (Joining n) s =
     Some (s\<lparr>reports := reports s @ [(''canceling...'', False)], coord := Draining n True 0 0\<rparr>)"
| "interrupt_step (Returned sm) s = None"
| "interrupt_step (Raised e) s = None"
| "interrupt_step c s = Some (s\<lparr>coord := Raised KeyboardInterrupt\<rparr>)"

text \<open>The line reported for a result (lines 92-93).\<close>

definition progress_line :: "result \<Rightarrow> string" where
  "progress_line r =
     (if result.copied r \<noteq> 0 then ''copied'' else ''scaled'') @ '' '' @ basename (result.name r)"

text \<open>
  The inner \<^verbatim>\<open>try\<close> of worker \<open>i\<close> (lines 90-96) on a job: the exception it lets
  through, if any, and the new state. \<^verbatim>\<open>results.put(result)\<close> appends the result to
  the buffer of this process and returns.
\<close>

definition attempt ::
  "('img, 'fs) setting \<Rightarrow> nat \<Rightarrow> job \<Rightarrow> 'fs state \<Rightarrow> error option \<times> 'fs state" where
  "attempt cfg i j s =
     (case scale_one (lib cfg) (bound cfg) (smooth cfg) (fst j) (snd j) (files s) of
        (Inr r, fs') \<Rightarrow>
          (None, s\<lparr>files := fs', reports := reports s @ [(progress_line r, False)],
                   buffers := (buffers s)[i := buffers s ! i @ [r]],
                   outcomes := outcomes s @ [(j, Inr r)]\<rparr>)
      | (Inl e, fs') \<Rightarrow>
          (case e of
             ImageError m \<Rightarrow>
               (None, s\<lparr>files := fs', reports := reports s @ [(m, True)],
                        outcomes := outcomes s @ [(j, Inl e)]\<rparr>)
           | _ \<Rightarrow> (Some e, s\<lparr>files := fs', outcomes := outcomes s @ [(j, Inl e)]\<rparr>)))"

text \<open>
  One atomic action of worker \<open>i\<close>, which is at \<open>w\<close>. In \<open>Waiting\<close> it is the
  return of \<^verbatim>\<open>jobs.get()\<close> with a job; the other way out of that call, an exception
  raised inside it, is \<open>get_raises\<close> below.
\<close>

fun worker_step :: "('img, 'fs) setting \<Rightarrow> nat \<Rightarrow> worker \<Rightarrow> 'fs state \<Rightarrow> 'fs state option" where
  "worker_step cfg i Waiting s =
     (case get (jobs s) of
        None \<Rightarrow> None
      | Some (j, q) \<Rightarrow> Some (s\<lparr>jobs := q, workers := (workers s)[i := Processing j]\<rparr>))"
| "worker_step cfg i (Processing j) s =
     (case attempt cfg i j s of
        (pending, s') \<Rightarrow> Some (s'\<lparr>workers := (workers s')[i := Finishing j pending]\<rparr>))"
| "worker_step cfg i (Finishing j pending) s =
     (case task_done (jobs s) of
        Inl e \<Rightarrow> Some (s\<lparr>workers := (workers s)[i := Crashed e]\<rparr>)
      | Inr q \<Rightarrow>
          Some (s\<lparr>jobs := q, acked := acked s @ [j],
                  workers := (workers s)[i := (case pending of None \<Rightarrow> Waiting
                                                | Some e \<Rightarrow> Crashed e)]\<rparr>))"
| "worker_step cfg i (Crashed e) s = None"

text \<open>
  The feeder thread of the result queue in process \<open>i\<close> writes the oldest buffered
  result to the pipe; it runs whatever the worker itself is doing, and also while the
  process ends.
\<close>

definition flush_step :: "nat \<Rightarrow> 'fs state \<Rightarrow> 'fs state option" where
  "flush_step i s =
     (if i < length (buffers s) then
        (case buffers s ! i of
           [] \<Rightarrow> None
         | r # rs \<Rightarrow> Some (s\<lparr>buffers := (buffers s)[i := rs], results := results s @ [r]\<rparr>))
      else None)"

text \<open>
  A schedule is a list of events: the coordinator acts, worker \<open>i\<close> acts, the feeder
  thread of worker \<open>i\<close> acts, or the operator's interrupt reaches the coordinator.
\<close>

datatype event = Coord | Work nat | Flush nat | Interrupt

definition step :: "('img, 'fs) setting \<Rightarrow> event \<Rightarrow> 'fs state \<Rightarrow> 'fs state option" where
  "step cfg ev s =
     (case ev of
        Coord \<Rightarrow> coord_step cfg (coord s) s
      | Work i \<Rightarrow> (if i < length (workers s) then worker_step cfg i (workers s ! i) s else None)
      | Flush i \<Rightarrow> flush_step i s
      | Interrupt \<Rightarrow> interrupt_step (coord s) s)"

fun exec :: "('img, 'fs) setting \<Rightarrow> event list \<Rightarrow> 'fs state \<Rightarrow> 'fs state option" where
  "exec cfg [] s = Some s"
| "exec cfg (ev # evs) s =
     (case step cfg ev s of None \<Rightarrow> None | Some s' \<Rightarrow> exec cfg evs s')"

definition reachable :: "('img, 'fs) setting \<Rightarrow> 'fs state \<Rightarrow> bool" where
  "reachable cfg s \<longleftrightarrow> (\<exists>fs evs. exec cfg evs (scale_start cfg fs) = Some s)"

text \<open>
  \<^verbatim>\<open>jobs.get()\<close> (line 89) stands inside the outer \<^verbatim>\<open>try\<close>. When an exception
  \<open>e\<close> is raised in it, as \<^verbatim>\<open>KeyboardInterrupt\<close> is when the operator's signal
  reaches a worker blocked there, no job has been retrieved and the \<^verbatim>\<open>finally\<close>
  clause runs all the same: \<^verbatim>\<open>jobs.task_done()\<close> raises \<^verbatim>\<open>ValueError\<close> when the
  count is zero, and otherwise counts down for a job that nobody has finished, after
  which \<open>e\<close> leaves the loop. Either way the worker ends.
\<close>

definition get_raises :: "nat \<Rightarrow> error \<Rightarrow> 'fs state \<Rightarrow> 'fs state option" where
  "get_raises i e s =
     (if i < length (workers s) \<and> workers s ! i = Waiting then
        (case task_done (jobs s) of
           Inl ve \<Rightarrow> Some (s\<lparr>workers := (workers s)[i := Crashed ve]\<rparr>)
         | Inr q \<Rightarrow> Some (s\<lparr>jobs := q, workers := (workers s)[i := Crashed e]\<rparr>))
      else None)"

text \<open>
  Runs in which \<^verbatim>\<open>jobs.get()\<close> may raise: an action is an event of a schedule or an
  exception in the \<^verbatim>\<open>jobs.get()\<close> of a waiting worker. \<open>exec\<close> and \<open>reachable\<close>
  above are the runs in which every \<^verbatim>\<open>jobs.get()\<close> blocks or returns a job.
\<close>

datatype action = Do event | Get_raises nat error

definition act :: "('img, 'fs) setting \<Rightarrow> action \<Rightarrow> 'fs state \<Rightarrow> 'fs state option" where
  "act cfg a s = (case a of Do ev \<Rightarrow> step cfg ev s | Get_raises i e \<Rightarrow> get_raises i e s)"

fun run :: "('img, 'fs) setting \<Rightarrow> action list \<Rightarrow> 'fs state \<Rightarrow> 'fs state option" where
  "run cfg [] s = Some s"
| "run cfg (a # as) s = (case act cfg a s of None \<Rightarrow> None | Some s' \<Rightarrow> run cfg as s')"

section \<open>summarize\<close>

text \<open>\<^verbatim>\<open>str\<close> of an int, as \<^verbatim>\<open>format\<close> prints it.\<close>

fun digits :: "nat \<Rightarrow> string" where
  "digits n =
     (if n < 10 then [''0123456789'' ! n]
      else digits (n div 10) @ [''0123456789'' ! (n mod 10)])"

definition str_int :: "int \<Rightarrow> string" where
  "str_int i = (if i < 0 then ''-'' @ digits (nat (- i)) else digits (nat i))"

text \<open>Line 135: \<^verbatim>\<open>difference = summary.todo - (summary.copied + summary.scaled)\<close>.\<close>

definition difference :: "summary \<Rightarrow> int" where
  "difference sm = summary.todo sm - (summary.copied sm + summary.scaled sm)"

text \<open>The message that \<^verbatim>\<open>summarize\<close> reports.\<close>

definition summarize :: "summary \<Rightarrow> int \<Rightarrow> string" where
  "summarize sm n =
     ''copied '' @ str_int (summary.copied sm) @ '' scaled '' @ str_int (summary.scaled sm) @ '' ''
     @ (if difference sm \<noteq> 0 then ''skipped '' @ str_int (difference sm) @ '' '' else [])
     @ ''using '' @ str_int n @ '' processes''
     @ (if summary.canceled sm then '' [canceled]'' else [])"

section \<open>handle_commandline, after argparse\<close>

text \<open>
  The namespace that \<^verbatim>\<open>parser.parse_args()\<close> returns, and the functions of
  \<^verbatim>\<open>os\<close> that the rest of \<^verbatim>\<open>handle_commandline\<close> calls. The namespace has no
  attribute \<^verbatim>\<open>error\<close>, so \<^verbatim>\<open>args.error(...)\<close> raises \<^verbatim>\<open>AttributeError\<close>.
\<close>

record namespace =
  args_concurrency :: int
  args_size :: int
  args_smooth :: bool
  args_source :: string
  args_target :: string

record os_module =
  abspath :: "string \<Rightarrow> path"
  exists :: "string \<Rightarrow> bool"
  makedirs :: "path \<Rightarrow> error option"

definition handle_commandline ::
  "os_module \<Rightarrow> namespace \<Rightarrow> error + (int \<times> bool \<times> path \<times> path \<times> int)" where
  "handle_commandline os args =
     (let src = abspath os (args_source args); tgt = abspath os (args_target args) in
      if src = tgt then Inl AttributeError
      else
        (case (if \<not> exists os (args_target args) then makedirs os tgt else None) of
           Some e \<Rightarrow> Inl e
         | None \<Rightarrow> Inr (args_size args, args_smooth args, src, tgt, args_concurrency args)))"

declare digits.simps [simp del]

section \<open>A small image library for concrete runs\<close>

text \<open>
  An image is its (width, height); the files are an association list from paths to
  images, newest first. Loading an unknown path raises \<^verbatim>\<open>Image.Error\<close>.
\<close>

definition demo_lib :: "(int \<times> int, (path \<times> int \<times> int) list) image_lib" where
  "demo_lib =
     \<lparr>from_file = (\<lambda>fs p. case map_of fs p of
                              None \<Rightarrow> Inl (ImageError ''cannot load'')
                            | Some img \<Rightarrow> Inr img),
      width = fst, height = snd,
      scale_img = (\<lambda>img f. Inr (\<lfloor>of_int (fst img) * f\<rfloor>, \<lfloor>of_int (snd img) * f\<rfloor>)),
      subsample = (\<lambda>img k. if k \<le> 0 then Inl ValueError
                            else Inr (- (- fst img div k), - (- snd img div k))),
      save = (\<lambda>fs img p. (None, (p, img) # fs))\<rparr>"

text \<open>
  Files, a call of \<^verbatim>\<open>scale\<close> on the directory \<^verbatim>\<open>/s\<close> with a given listing and
  worker count, and an \<^verbatim>\<open>os\<close> module in which every path is absolute and exists.
\<close>

definition demo_files :: "(path \<times> int \<times> int) list" where
  "demo_files = [(''/s/a'', (800, 400)), (''/s/b'', (300, 200))]"

definition demo_setting ::
  "string list \<Rightarrow> int \<Rightarrow> (int \<times> int, (path \<times> int \<times> int) list) setting" where
  "demo_setting names n =
     \<lparr>lib = demo_lib,
      listdir = (\<lambda>p. if p = ''/s'' then Inr names else Inl (OSError ''no such directory'')),
      bound = 400, smooth = False, source = ''/s'', target = ''/t'', concurrency = n\<rparr>"

definition demo_os :: os_module where
  "demo_os = \<lparr>abspath = (\<lambda>p. p), exists = (\<lambda>p. True), makedirs = (\<lambda>p. None)\<rparr>"

section \<open>History, invariant and measure\<close>

text \<open>The job a worker holds before, and after, its inner \<^verbatim>\<open>try\<close>.\<close>

fun processing :: "worker \<Rightarrow> job list" where
  "processing (Processing j) = [j]"
| "processing w = []"

fun finishing :: "worker \<Rightarrow> job list" where
  "finishing (Finishing j pending) = [j]"
| "finishing w = []"

text \<open>The jobs that the workers hold at the places selected by \<open>f\<close>.\<close>

definition held :: "(worker \<Rightarrow> job list) \<Rightarrow> worker list \<Rightarrow> job multiset" where
  "held f ws = mset (concat (map f ws))"

text \<open>The results put on the result queue, and the jobs that raised, in order.\<close>

fun emitted :: "(job \<times> (error + result)) list \<Rightarrow> result list" where
  "emitted [] = []"
| "emitted ((j, Inr r) # os) = r # emitted os"
| "emitted ((j, Inl e) # os) = emitted os"

fun failed :: "(job \<times> (error + result)) list \<Rightarrow> (job \<times> error) list" where
  "failed [] = []"
| "failed ((j, Inr r) # os) = failed os"
| "failed ((j, Inl e) # os) = (j, e) # failed os"

text \<open>
  The invariant of the batch. Every job put so far is waiting in the queue, held by a
  worker before its inner \<^verbatim>\<open>try\<close>, or has an outcome; every job with an outcome has
  been acknowledged or is held by a worker about to call \<^verbatim>\<open>task_done\<close>; the count
  of unfinished tasks is the number of jobs waiting or held; the results put so far are
  the ones drained, the ones in the pipe of the result queue and the ones still in a
  worker's buffer, each \<open>(1, 0)\<close> or \<open>(0, 1)\<close>; every worker has a buffer; and the
  coordinator's local variables agree with the history.
\<close>

definition inv_jobs :: "'fs state \<Rightarrow> bool" where
  "inv_jobs s \<longleftrightarrow>
     mset (enqueued s) =
       mset (items (jobs s)) + held processing (workers s) + mset (map fst (outcomes s))"

definition inv_acks :: "'fs state \<Rightarrow> bool" where
  "inv_acks s \<longleftrightarrow>
     mset (map fst (outcomes s)) = mset (acked s) + held finishing (workers s)"

definition inv_count :: "'fs state \<Rightarrow> bool" where
  "inv_count s \<longleftrightarrow>
     unfinished (jobs s) =
       length (items (jobs s)) + size (held processing (workers s))
         + size (held finishing (workers s))"

definition inv_results :: "'fs state \<Rightarrow> bool" where
  "inv_results s \<longleftrightarrow>
     mset (emitted (outcomes s))
       = mset (drained s) + mset (results s) + mset (concat (buffers s))
     \<and> length (buffers s) = length (workers s)
     \<and> (\<forall>r \<in> set (emitted (outcomes s)).
           (result.copied r = 1 \<and> result.scaled r = 0)
           \<or> (result.copied r = 0 \<and> result.scaled r = 1))"

fun inv_coord :: "coordinator \<Rightarrow> 'fs state \<Rightarrow> bool" where
  "inv_coord (Creating k) s \<longleftrightarrow> enqueued s = [] \<and> drained s = []"
| "inv_coord (Adding rest bound_todo) s \<longleftrightarrow>
     drained s = []
     \<and> bound_todo = (if enqueued s = [] then None else Some (int (length (enqueued s))))
     \<and> rest = py_enumerate (int (length (enqueued s)) + 1) (map snd rest)"
| "inv_coord (Joining n) s \<longleftrightarrow>
     drained s = [] \<and> n = int (length (enqueued s)) \<and> 0 < n"
| "inv_coord (Draining n c cp sc) s \<longleftrightarrow>
     n = int (length (enqueued s)) \<and> 0 < n
     \<and> cp = sum_list (map result.copied (drained s))
     \<and> sc = sum_list (map result.scaled (drained s))
     \<and> (\<not> c \<longrightarrow> unfinished (jobs s) = 0)"
| "inv_coord (Returned sm) s \<longleftrightarrow>
     summary.todo sm = int (length (enqueued s)) \<and> 0 < summary.todo sm
     \<and> summary.copied sm = sum_list (map result.copied (drained s))
     \<and> summary.scaled sm = sum_list (map result.scaled (drained s))
     \<and> (\<not> summary.canceled sm \<longrightarrow> unfinished (jobs s) = 0)"
| "inv_coord (Raised e) s \<longleftrightarrow> True"

definition inv :: "'fs state \<Rightarrow> bool" where
  "inv s \<longleftrightarrow> inv_jobs s \<and> inv_acks s \<and> inv_count s \<and> inv_results s \<and> inv_coord (coord s) s"

text \<open>
  The results the drain loop can still meet: those in the pipe of the result queue, those
  in the workers' buffers, and at most one for every job waiting or in an inner
  \<^verbatim>\<open>try\<close>.
\<close>

definition backlog :: "'fs state \<Rightarrow> nat" where
  "backlog s =
     length (results s) + length (concat (buffers s)) + length (items (jobs s))
       + size (held processing (workers s))"

definition is_returned :: "coordinator \<Rightarrow> bool" where
  "is_returned c \<longleftrightarrow> (case c of Returned sm \<Rightarrow> True | _ \<Rightarrow> False)"

section \<open>The invariant holds in every reachable state\<close>

lemmas inv_defs = inv_def inv_jobs_def inv_acks_def inv_count_def inv_results_def

lemma held_Nil [simp]: "held f [] = {#}"
  by (simp add: held_def)

lemma held_append [simp]: "held f (ws @ vs) = held f ws + held f vs"
  by (simp add: held_def)

lemma held_single [simp]: "held f [w] = mset (f w)"
  by (simp add: held_def)

lemma held_update:
  "i < length ws \<Longrightarrow> held f (ws[i := w]) + mset (f (ws ! i)) = held f ws + mset (f w)"
proof (induction ws arbitrary: i)
  case Nil
  then show ?case by simp
next
  case (Cons v vs)
  show ?case
  proof (cases i)
    case 0
    then show ?thesis by (simp add: held_def)
  next
    case (Suc k)
    with Cons.prems have "k < length vs" by simp
    from Cons.IH [OF this] show ?thesis using Suc by (simp add: held_def)
  qed
qed

lemma concat_update:
  "i < length bs \<Longrightarrow> mset (concat (bs[i := b])) + mset (bs ! i) = mset (concat bs) + mset b"
proof (induction bs arbitrary: i)
  case Nil
  then show ?case by simp
next
  case (Cons c cs)
  show ?case
  proof (cases i)
    case 0
    then show ?thesis by simp
  next
    case (Suc k)
    with Cons.prems have "k < length cs" by simp
    from Cons.IH [OF this] show ?thesis using Suc by simp
  qed
qed

lemma concat_update_append:
  assumes "i < length bs"
  shows "mset (concat (bs[i := bs ! i @ new])) = mset (concat bs) + mset new"
  using concat_update [OF assms, of "bs ! i @ new"] by simp

lemma concat_update_tail:
  assumes "i < length bs" and "bs ! i = r # rs"
  shows "mset (concat bs) = mset (concat (bs[i := rs])) + {#r#}"
  using concat_update [OF assms(1), of rs] assms(2) by simp

lemma emitted_append [simp]: "emitted (xs @ ys) = emitted xs @ emitted ys"
  by (induction xs rule: emitted.induct) simp_all

lemma failed_append [simp]: "failed (xs @ ys) = failed xs @ failed ys"
  by (induction xs rule: failed.induct) simp_all

lemma length_outcomes: "length os = length (emitted os) + length (failed os)"
  by (induction os rule: emitted.induct) simp_all

lemma inv_start: "inv (scale_start cfg fs)"
  by (simp add: inv_defs scale_start_def)

lemma py_enumerate_snd [simp]: "map snd (py_enumerate n xs) = xs"
  by (induction xs arbitrary: n) simp_all

lemma inv_coord_step:
  assumes "inv s" and "coord_step cfg (coord s) s = Some s'"
  shows "inv s'"
proof (cases "coord s")
  case (Creating k)
  then show ?thesis using assms
    by (cases k) (auto simp add: inv_defs split: sum.splits)
next
  case (Adding rest bound_todo)
  show ?thesis
  proof (cases rest)
    case Nil
    then show ?thesis using assms Adding
      by (cases bound_todo) (auto simp add: inv_defs split: if_splits)
  next
    case (Cons p rest')
    obtain i nm where p: "p = (i, nm)" by (cases p)
    show ?thesis using assms Adding Cons p
      by (auto simp add: inv_defs add_job_def put_def)
  qed
next
  case (Joining n)
  then show ?thesis using assms by (auto simp add: inv_defs split: if_splits)
next
  case (Draining n c cp sc)
  then show ?thesis using assms
    by (cases "results s") (auto simp add: inv_defs)
next
  case (Returned sm)
  then show ?thesis using assms by simp
next
  case (Raised e)
  then show ?thesis using assms by simp
qed

lemma inv_interrupt_step:
  assumes "inv s" and "interrupt_step (coord s) s = Some s'"
  shows "inv s'"
  using assms by (cases "coord s") (auto simp add: inv_defs)

lemma save_as_result:
  "save_as lb fs img tgt c k = (Inr r, fs') \<Longrightarrow> r = Result c k tgt"
  by (auto simp add: save_as_def split: prod.splits option.splits)

lemma scale_one_result:
  assumes "scale_one lb sz sm src tgt fs = (Inr r, fs')"
  shows "r = Result 1 0 tgt \<or> r = Result 0 1 tgt"
  using assms
  by (auto simp add: scale_one_def split: sum.splits if_splits dest: save_as_result)

lemma attempt_frame:
  assumes "attempt cfg i j s = (pending, s')"
  shows "jobs s' = jobs s" and "workers s' = workers s" and "coord s' = coord s"
    and "enqueued s' = enqueued s" and "acked s' = acked s" and "drained s' = drained s"
    and "results s' = results s" and "length (buffers s') = length (buffers s)"
  using assms
  by (auto simp add: attempt_def split: prod.splits sum.splits error.splits)

lemma attempt_outcome:
  assumes "attempt cfg i j s = (pending, s')"
  shows "(\<exists>r. outcomes s' = outcomes s @ [(j, Inr r)]
              \<and> buffers s' = (buffers s)[i := buffers s ! i @ [r]]
              \<and> (r = Result 1 0 (snd j) \<or> r = Result 0 1 (snd j)) \<and> pending = None
              \<and> reports s' = reports s @ [(progress_line r, False)])
         \<or> (\<exists>m. outcomes s' = outcomes s @ [(j, Inl (ImageError m))] \<and> buffers s' = buffers s
              \<and> pending = None \<and> reports s' = reports s @ [(m, True)])
         \<or> (\<exists>e. outcomes s' = outcomes s @ [(j, Inl e)] \<and> buffers s' = buffers s
              \<and> pending = Some e \<and> (\<forall>m. e \<noteq> ImageError m) \<and> reports s' = reports s)"
proof (cases "scale_one (lib cfg) (bound cfg) (smooth cfg) (fst j) (snd j) (files s)")
  case (Pair x fs')
  show ?thesis
  proof (cases x)
    case (Inr r)
    with Pair have "r = Result 1 0 (snd j) \<or> r = Result 0 1 (snd j)"
      by (auto dest: scale_one_result)
    then show ?thesis using assms Pair Inr by (auto simp add: attempt_def)
  next
    case (Inl e)
    then show ?thesis using assms Pair by (cases e) (auto simp add: attempt_def)
  qed
qed

lemma attempt_logs:
  assumes "attempt cfg i j s = (pending, s')"
  shows "\<exists>out new. outcomes s' = outcomes s @ [(j, out)]
           \<and> buffers s' = (buffers s)[i := buffers s ! i @ new]
           \<and> emitted (outcomes s') = emitted (outcomes s) @ new
           \<and> length new \<le> 1
           \<and> (\<forall>r \<in> set new. (result.copied r = 1 \<and> result.scaled r = 0)
                               \<or> (result.copied r = 0 \<and> result.scaled r = 1))"
proof -
  from attempt_outcome [OF assms] consider
    (ok) r where "outcomes s' = outcomes s @ [(j, Inr r)]"
      "buffers s' = (buffers s)[i := buffers s ! i @ [r]]"
      "r = Result 1 0 (snd j) \<or> r = Result 0 1 (snd j)"
  | (err) e where "outcomes s' = outcomes s @ [(j, Inl e)]" "buffers s' = buffers s"
    by blast
  then show ?thesis
  proof cases
    case ok
    then show ?thesis by (intro exI [of _ "Inr r"] exI [of _ "[r]"]) auto
  next
    case err
    then show ?thesis by (intro exI [of _ "Inl e"] exI [of _ "[]"]) auto
  qed
qed

lemma inv_coord_cong:
  assumes "inv_coord c s" and "enqueued s' = enqueued s" and "drained s' = drained s"
    and "unfinished (jobs s) = 0 \<longrightarrow> unfinished (jobs s') = 0"
  shows "inv_coord c s'"
  using assms by (cases c) auto

lemma inv_worker_step:
  assumes "inv s" and i: "i < length (workers s)"
    and st: "worker_step cfg i (workers s ! i) s = Some s'"
  shows "inv s'"
proof -
  from assms(1) have J: "mset (enqueued s) =
       mset (items (jobs s)) + held processing (workers s) + mset (map fst (outcomes s))"
    and A: "mset (map fst (outcomes s)) = mset (acked s) + held finishing (workers s)"
    and C: "unfinished (jobs s) =
       length (items (jobs s)) + size (held processing (workers s))
         + size (held finishing (workers s))"
    and R: "inv_results s" and K: "inv_coord (coord s) s"
    by (simp_all add: inv_defs)
  from R have E: "mset (emitted (outcomes s))
       = mset (drained s) + mset (results s) + mset (concat (buffers s))"
    and L: "length (buffers s) = length (workers s)"
    and U: "\<forall>r \<in> set (emitted (outcomes s)).
             (result.copied r = 1 \<and> result.scaled r = 0)
             \<or> (result.copied r = 0 \<and> result.scaled r = 1)"
    by (simp_all add: inv_results_def)
  show ?thesis
  proof (cases "workers s ! i")
    case Waiting
    from st Waiting obtain j js where it: "items (jobs s) = j # js"
      and s': "s' = s\<lparr>jobs := (jobs s)\<lparr>items := js\<rparr>, workers := (workers s)[i := Processing j]\<rparr>"
      by (auto simp add: get_def split: list.splits)
    from held_update [OF i, of processing "Processing j"] Waiting
    have p: "held processing ((workers s)[i := Processing j]) = held processing (workers s) + {#j#}"
      by simp
    from held_update [OF i, of finishing "Processing j"] Waiting
    have f: "held finishing ((workers s)[i := Processing j]) = held finishing (workers s)"
      by simp
    have 1: "inv_jobs s'" unfolding s' inv_jobs_def using J it by (simp add: p)
    have 2: "inv_acks s'" unfolding s' inv_acks_def using A by (simp add: f)
    have 3: "inv_count s'" unfolding s' inv_count_def using C it by (simp add: p f)
    have 4: "inv_results s'" using R unfolding s' inv_results_def by simp
    have c: "coord s' = coord s" unfolding s' by simp
    have 5: "inv_coord (coord s') s'"
      unfolding c by (rule inv_coord_cong [OF K]) (simp_all add: s')
    show ?thesis using 1 2 3 4 5 by (simp add: inv_def)
  next
    case (Processing j)
    obtain pending s1 where a: "attempt cfg i j s = (pending, s1)"
      by (cases "attempt cfg i j s")
    with st Processing have s': "s' = s1\<lparr>workers := (workers s1)[i := Finishing j pending]\<rparr>"
      by simp
    note fr = attempt_frame [OF a]
    from attempt_logs [OF a] obtain out new where
      o: "outcomes s1 = outcomes s @ [(j, out)]"
      and bf: "buffers s1 = (buffers s)[i := buffers s ! i @ new]"
      and em: "emitted (outcomes s1) = emitted (outcomes s) @ new"
      and un: "\<forall>r \<in> set new. (result.copied r = 1 \<and> result.scaled r = 0)
                               \<or> (result.copied r = 0 \<and> result.scaled r = 1)"
      by blast
    from held_update [OF i, of processing "Finishing j pending"] Processing
    have p: "held processing (workers s) = held processing ((workers s)[i := Finishing j pending]) + {#j#}"
      by simp
    from held_update [OF i, of finishing "Finishing j pending"] Processing
    have f: "held finishing ((workers s)[i := Finishing j pending]) = held finishing (workers s) + {#j#}"
      by simp
    have ib: "i < length (buffers s)" using i L by simp
    have cb: "mset (concat (buffers s1)) = mset (concat (buffers s)) + mset new"
      unfolding bf using ib by (rule concat_update_append)
    have 1: "inv_jobs s'" unfolding s' inv_jobs_def using J by (simp add: fr o p)
    have 2: "inv_acks s'" unfolding s' inv_acks_def using A by (simp add: fr o f)
    have 3: "inv_count s'" unfolding s' inv_count_def using C by (simp add: fr p f)
    have 4: "inv_results s'" using E L U un unfolding s' inv_results_def
      by (auto simp add: fr em cb)
    have pos: "unfinished (jobs s) \<noteq> 0" using C by (simp add: p)
    have c: "coord s' = coord s" unfolding s' by (simp add: fr)
    have 5: "inv_coord (coord s') s'"
      unfolding c using pos by (intro inv_coord_cong [OF K]) (simp_all add: s' fr)
    show ?thesis using 1 2 3 4 5 by (simp add: inv_def)
  next
    case (Finishing j pending)
    let ?w = "case pending of None \<Rightarrow> Waiting | Some e \<Rightarrow> Crashed e"
    have w: "processing ?w = []" "finishing ?w = []" by (cases pending; simp)+
    from held_update [OF i, of finishing ?w] Finishing
    have f: "held finishing (workers s) = held finishing ((workers s)[i := ?w]) + {#j#}"
      by (simp add: w)
    from held_update [OF i, of processing ?w] Finishing
    have p: "held processing ((workers s)[i := ?w]) = held processing (workers s)"
      by (simp add: w)
    have pos: "unfinished (jobs s) \<noteq> 0" using C by (simp add: f)
    have s': "s' = s\<lparr>jobs := (jobs s)\<lparr>unfinished := unfinished (jobs s) - 1\<rparr>,
                     acked := acked s @ [j], workers := (workers s)[i := ?w]\<rparr>"
      using st Finishing pos by (simp add: task_done_def)
    have 1: "inv_jobs s'" unfolding s' inv_jobs_def using J by (simp add: p)
    have 2: "inv_acks s'" unfolding s' inv_acks_def using A by (simp add: f)
    have 3: "inv_count s'" unfolding s' inv_count_def using C by (simp add: p f)
    have 4: "inv_results s'" using R unfolding s' inv_results_def by simp
    have c: "coord s' = coord s" unfolding s' by simp
    have 5: "inv_coord (coord s') s'"
      unfolding c using pos by (intro inv_coord_cong [OF K]) (simp_all add: s')
    show ?thesis using 1 2 3 4 5 by (simp add: inv_def)
  next
    case (Crashed e)
    then show ?thesis using st by simp
  qed
qed

lemma flush_step_Some:
  assumes "flush_step i s = Some s'"
  shows "\<exists>r rs. i < length (buffers s) \<and> buffers s ! i = r # rs
           \<and> s' = s\<lparr>buffers := (buffers s)[i := rs], results := results s @ [r]\<rparr>"
  using assms by (auto simp add: flush_step_def split: if_splits list.splits)

lemma inv_flush_step:
  assumes "inv s" and "flush_step i s = Some s'"
  shows "inv s'"
proof -
  from flush_step_Some [OF assms(2)] obtain r rs where i: "i < length (buffers s)"
    and b: "buffers s ! i = r # rs"
    and s': "s' = s\<lparr>buffers := (buffers s)[i := rs], results := results s @ [r]\<rparr>"
    by blast
  note cb = concat_update_tail [OF i b]
  have 1: "inv_jobs s'" using assms(1) unfolding s' by (simp add: inv_defs)
  have 2: "inv_acks s'" using assms(1) unfolding s' by (simp add: inv_defs)
  have 3: "inv_count s'" using assms(1) unfolding s' by (simp add: inv_defs)
  have 4: "inv_results s'" using assms(1) unfolding s' by (simp add: inv_defs cb)
  have K: "inv_coord (coord s) s" using assms(1) by (simp add: inv_def)
  have c: "coord s' = coord s" unfolding s' by simp
  have 5: "inv_coord (coord s') s'"
    unfolding c by (rule inv_coord_cong [OF K]) (simp_all add: s')
  show ?thesis using 1 2 3 4 5 by (simp add: inv_def)
qed

lemma inv_step:
  assumes "inv s" and "step cfg ev s = Some s'"
  shows "inv s'"
proof (cases ev)
  case Coord
  with assms(2) have "coord_step cfg (coord s) s = Some s'" by (simp add: step_def)
  with assms(1) show ?thesis by (rule inv_coord_step)
next
  case (Work i)
  with assms(2) have "i < length (workers s)" "worker_step cfg i (workers s ! i) s = Some s'"
    by (simp_all add: step_def split: if_splits)
  with assms(1) show ?thesis by (rule inv_worker_step)
next
  case (Flush i)
  with assms(2) have "flush_step i s = Some s'" by (simp add: step_def)
  with assms(1) show ?thesis by (rule inv_flush_step)
next
  case Interrupt
  with assms(2) have "interrupt_step (coord s) s = Some s'" by (simp add: step_def)
  with assms(1) show ?thesis by (rule inv_interrupt_step)
qed

lemma exec_Cons_Some:
  "exec cfg (ev # evs) s = Some s' \<longleftrightarrow> (\<exists>s1. step cfg ev s = Some s1 \<and> exec cfg evs s1 = Some s')"
  by (simp split: option.splits)

lemma inv_exec: "inv s \<Longrightarrow> exec cfg evs s = Some s' \<Longrightarrow> inv s'"
proof (induction evs arbitrary: s)
  case Nil
  then show ?case by simp
next
  case (Cons ev evs)
  from Cons.prems(2) obtain s1 where 1: "step cfg ev s = Some s1" and 2: "exec cfg evs s1 = Some s'"
    unfolding exec_Cons_Some by blast
  from Cons.prems(1) 1 have "inv s1" by (rule inv_step)
  then show ?case using 2 by (rule Cons.IH)
qed

lemma inv_reachable:
  assumes "reachable cfg s"
  shows "inv s"
proof -
  from assms obtain fs evs where "exec cfg evs (scale_start cfg fs) = Some s"
    unfolding reachable_def by blast
  with inv_start show ?thesis by (rule inv_exec)
qed

section \<open>What each process leaves alone; the drain loop ends\<close>

lemma worker_step_frame:
  assumes "worker_step cfg i w s = Some s'"
  shows "coord s' = coord s" and "drained s' = drained s" and "enqueued s' = enqueued s"
    and "length (workers s') = length (workers s)"
    and "\<forall>k. k \<noteq> i \<longrightarrow> workers s' ! k = workers s ! k"
    and "\<exists>new. outcomes s' = outcomes s @ new"
    and "results s' = results s"
proof -
  have "coord s' = coord s \<and> drained s' = drained s \<and> enqueued s' = enqueued s
        \<and> length (workers s') = length (workers s)
        \<and> (\<forall>k. k \<noteq> i \<longrightarrow> workers s' ! k = workers s ! k)
        \<and> (\<exists>new. outcomes s' = outcomes s @ new)
        \<and> results s' = results s"
  proof (cases w)
    case Waiting
    then show ?thesis using assms by (auto simp add: get_def split: list.splits)
  next
    case (Processing j)
    obtain pending s1 where a: "attempt cfg i j s = (pending, s1)"
      by (cases "attempt cfg i j s")
    from attempt_logs [OF a] obtain out where "outcomes s1 = outcomes s @ [(j, out)]" by blast
    then show ?thesis using assms Processing a attempt_frame [OF a] by auto
  next
    case (Finishing j pending)
    then show ?thesis using assms by (auto simp add: task_done_def split: if_splits)
  next
    case (Crashed e)
    then show ?thesis using assms by simp
  qed
  then show "coord s' = coord s" and "drained s' = drained s" and "enqueued s' = enqueued s"
    and "length (workers s') = length (workers s)"
    and "\<forall>k. k \<noteq> i \<longrightarrow> workers s' ! k = workers s ! k"
    and "\<exists>new. outcomes s' = outcomes s @ new"
    and "results s' = results s"
    by simp_all
qed

lemma coord_step_frame:
  assumes "coord_step cfg c s = Some s'"
  shows "outcomes s' = outcomes s" and "acked s' = acked s" and "files s' = files s"
    and "reports s' = reports s"
    and "length (workers s) \<le> length (workers s')"
    and "\<forall>k < length (workers s). workers s' ! k = workers s ! k"
  using assms
  by (induction cfg c s rule: coord_step.induct)
     (auto simp add: nth_append split: sum.splits if_splits list.splits)

lemma coord_step_count:
  assumes "coord_step cfg c s = Some s'"
  shows "unfinished (jobs s) \<le> unfinished (jobs s')"
  using assms
  by (induction cfg c s rule: coord_step.induct)
     (auto simp add: add_job_def put_def split: sum.splits if_splits list.splits)

lemma interrupt_step_frame:
  assumes "interrupt_step c s = Some s'"
  shows "outcomes s' = outcomes s" and "acked s' = acked s" and "files s' = files s"
    and "workers s' = workers s" and "jobs s' = jobs s" and "results s' = results s"
    and "drained s' = drained s" and "enqueued s' = enqueued s"
    and "buffers s' = buffers s"
  using assms by (cases c; auto)+

lemma flush_step_frame:
  assumes "flush_step i s = Some s'"
  shows "outcomes s' = outcomes s" and "acked s' = acked s" and "files s' = files s"
    and "workers s' = workers s" and "jobs s' = jobs s" and "coord s' = coord s"
    and "drained s' = drained s" and "enqueued s' = enqueued s"
    and "reports s' = reports s"
  using flush_step_Some [OF assms] by auto

text \<open>The pipe of the result queue is a FIFO: what was drained or is in it stays in front.\<close>

lemma step_pipe_mono:
  assumes "step cfg ev s = Some s'"
  shows "prefix (drained s @ results s) (drained s' @ results s')"
proof (cases ev)
  case Coord
  with assms have st: "coord_step cfg (coord s) s = Some s'" by (simp add: step_def)
  show ?thesis
  proof (cases "coord s")
    case (Creating k)
    then show ?thesis using st by (cases k) (auto split: sum.splits)
  next
    case (Adding rest b)
    then show ?thesis using st by (cases rest; cases b) auto
  next
    case (Joining n)
    then show ?thesis using st by (auto split: if_splits)
  next
    case (Draining n c cp sc)
    then show ?thesis using st by (cases "results s") auto
  next
    case (Returned x)
    then show ?thesis using st by simp
  next
    case (Raised e)
    then show ?thesis using st by simp
  qed
next
  case (Work i)
  with assms have "worker_step cfg i (workers s ! i) s = Some s'"
    by (simp add: step_def split: if_splits)
  from worker_step_frame(2,7) [OF this] show ?thesis by simp
next
  case (Flush i)
  with assms have "flush_step i s = Some s'" by (simp add: step_def)
  from flush_step_Some [OF this] show ?thesis by auto
next
  case Interrupt
  with assms have "interrupt_step (coord s) s = Some s'" by (simp add: step_def)
  from interrupt_step_frame(6,7) [OF this] show ?thesis by simp
qed

lemma step_into_returned:
  assumes "step cfg ev s = Some s'" and "coord s' = Returned sm" and "\<not> is_returned (coord s)"
  shows "results s = [] \<and> drained s' = drained s \<and> outcomes s' = outcomes s
         \<and> (\<exists>n c cp sc. coord s = Draining n c cp sc \<and> sm = Summary n cp sc c)"
proof (cases ev)
  case Coord
  with assms(1) have st: "coord_step cfg (coord s) s = Some s'" by (simp add: step_def)
  show ?thesis
  proof (cases "coord s")
    case (Creating k)
    then show ?thesis using st assms(2) by (cases k) (auto split: sum.splits)
  next
    case (Adding rest b)
    then show ?thesis using st assms(2)
      by (cases rest; cases b) auto
  next
    case (Joining n)
    then show ?thesis using st assms(2) by (auto split: if_splits)
  next
    case (Draining n c cp sc)
    then show ?thesis using st assms(2) by (cases "results s") auto
  next
    case (Returned x)
    then show ?thesis using assms(3) by (simp add: is_returned_def)
  next
    case (Raised e)
    then show ?thesis using st by simp
  qed
next
  case (Work i)
  with assms(1) have "worker_step cfg i (workers s ! i) s = Some s'"
    by (simp add: step_def split: if_splits)
  from worker_step_frame(1) [OF this] assms(2) have "coord s = Returned sm" by simp
  with assms(3) show ?thesis by (simp add: is_returned_def)
next
  case (Flush i)
  with assms(1) have "flush_step i s = Some s'" by (simp add: step_def)
  from flush_step_frame(6) [OF this] assms(2) have "coord s = Returned sm" by simp
  with assms(3) show ?thesis by (simp add: is_returned_def)
next
  case Interrupt
  with assms(1) have "interrupt_step (coord s) s = Some s'" by (simp add: step_def)
  then show ?thesis using assms(2) by (cases "coord s") auto
qed

lemma returned_step:
  assumes "step cfg ev s = Some s'" and "coord s = Returned sm"
  shows "coord s' = Returned sm \<and> drained s' = drained s"
proof (cases ev)
  case Coord
  with assms show ?thesis by (simp add: step_def)
next
  case (Work i)
  with assms(1) have "worker_step cfg i (workers s ! i) s = Some s'"
    by (simp add: step_def split: if_splits)
  from worker_step_frame(1,2) [OF this] assms(2) show ?thesis by simp
next
  case (Flush i)
  with assms(1) have "flush_step i s = Some s'" by (simp add: step_def)
  from flush_step_frame(6,7) [OF this] assms(2) show ?thesis by simp
next
  case Interrupt
  with assms show ?thesis by (simp add: step_def)
qed

lemma returned_exec:
  "exec cfg evs s = Some s' \<Longrightarrow> coord s = Returned sm \<Longrightarrow>
   coord s' = Returned sm \<and> drained s' = drained s"
proof (induction evs arbitrary: s)
  case Nil
  then show ?case by simp
next
  case (Cons ev evs)
  from Cons.prems(1) obtain s1 where 1: "step cfg ev s = Some s1" and 2: "exec cfg evs s1 = Some s'"
    unfolding exec_Cons_Some by blast
  from returned_step [OF 1 Cons.prems(2)] Cons.IH [OF 2] show ?case by simp
qed

lemma drained_covers:
  "exec cfg evs s = Some s' \<Longrightarrow> \<not> is_returned (coord s) \<Longrightarrow> coord s' = Returned sm
   \<Longrightarrow> prefix (drained s @ results s) (drained s')"
proof (induction evs arbitrary: s)
  case Nil
  then show ?case by (simp add: is_returned_def)
next
  case (Cons ev evs)
  from Cons.prems(1) obtain s1 where 1: "step cfg ev s = Some s1" and 2: "exec cfg evs s1 = Some s'"
    unfolding exec_Cons_Some by blast
  show ?case
  proof (cases "is_returned (coord s1)")
    case True
    then obtain sm1 where r: "coord s1 = Returned sm1"
      by (cases "coord s1") (simp_all add: is_returned_def)
    from step_into_returned [OF 1 r Cons.prems(2)]
    have "results s = []" "drained s1 = drained s" by simp_all
    moreover from returned_exec [OF 2 r] have "drained s' = drained s1" by simp
    ultimately show ?thesis by simp
  next
    case False
    from Cons.IH [OF 2 False Cons.prems(3)]
    have "prefix (drained s1 @ results s1) (drained s')" .
    with step_pipe_mono [OF 1] show ?thesis by (rule prefix_order.trans)
  qed
qed

lemma worker_step_backlog:
  assumes "inv s" and "i < length (workers s)"
    and "worker_step cfg i (workers s ! i) s = Some s'"
  shows "backlog s' \<le> backlog s"
proof (cases "workers s ! i")
  case Waiting
  from assms(3) Waiting obtain j js where it: "items (jobs s) = j # js"
    and s': "s' = s\<lparr>jobs := (jobs s)\<lparr>items := js\<rparr>, workers := (workers s)[i := Processing j]\<rparr>"
    by (auto simp add: get_def split: list.splits)
  from held_update [OF assms(2), of processing "Processing j"] Waiting
  have "held processing ((workers s)[i := Processing j]) = held processing (workers s) + {#j#}"
    by simp
  then show ?thesis unfolding s' backlog_def using it by simp
next
  case (Processing j)
  obtain pending s1 where a: "attempt cfg i j s = (pending, s1)"
    by (cases "attempt cfg i j s")
  with assms(3) Processing have s': "s' = s1\<lparr>workers := (workers s1)[i := Finishing j pending]\<rparr>"
    by simp
  note fr = attempt_frame [OF a]
  from attempt_logs [OF a] obtain new where
    bf: "buffers s1 = (buffers s)[i := buffers s ! i @ new]" and n: "length new \<le> 1"
    by blast
  have "length (buffers s) = length (workers s)" using assms(1) by (simp add: inv_defs)
  with assms(2) have "i < length (buffers s)" by simp
  then have "mset (concat (buffers s1)) = mset (concat (buffers s)) + mset new"
    unfolding bf by (rule concat_update_append)
  then have "size (mset (concat (buffers s1))) = size (mset (concat (buffers s)) + mset new)"
    by simp
  then have "length (concat (buffers s1)) = length (concat (buffers s)) + length new"
    by (simp only: size_mset size_union)
  with n have b: "length (concat (buffers s1)) \<le> Suc (length (concat (buffers s)))" by simp
  from held_update [OF assms(2), of processing "Finishing j pending"] Processing
  have "held processing (workers s) = held processing ((workers s)[i := Finishing j pending]) + {#j#}"
    by simp
  with b show ?thesis unfolding s' backlog_def by (simp add: fr)
next
  case (Finishing j pending)
  let ?w = "case pending of None \<Rightarrow> Waiting | Some e \<Rightarrow> Crashed e"
  have w: "processing ?w = []" by (cases pending; simp)
  from held_update [OF assms(2), of processing] Finishing
  have p: "\<And>w. held processing ((workers s)[i := w]) = held processing (workers s) + mset (processing w)"
    by simp
  show ?thesis using assms(3) Finishing
    by (auto simp add: task_done_def backlog_def p w split: if_splits)
next
  case (Crashed e)
  then show ?thesis using assms(3) by simp
qed

lemma flush_step_backlog:
  assumes "flush_step i s = Some s'"
  shows "backlog s' = backlog s"
proof -
  from flush_step_Some [OF assms] obtain r rs where i: "i < length (buffers s)"
    and b: "buffers s ! i = r # rs"
    and s': "s' = s\<lparr>buffers := (buffers s)[i := rs], results := results s @ [r]\<rparr>"
    by blast
  from concat_update_tail [OF i b]
  have "size (mset (concat (buffers s))) = size (mset (concat ((buffers s)[i := rs])) + {#r#})"
    by simp
  then have "length (concat (buffers s)) = Suc (length (concat ((buffers s)[i := rs])))"
    by (simp only: size_mset size_union size_single)
  then show ?thesis unfolding s' backlog_def by simp
qed

lemma draining_step:
  assumes "inv s" and "step cfg ev s = Some s'" and "ev \<noteq> Interrupt"
    and "coord s = Draining n c cp sc"
  shows "coord s' = Returned (Summary n cp sc c)
         \<or> (\<exists>cp' sc'. coord s' = Draining n c cp' sc'
               \<and> (if ev = Coord then 1 else 0) + backlog s' \<le> backlog s)"
proof (cases ev)
  case Coord
  with assms(2,4) show ?thesis
    by (cases "results s") (auto simp add: step_def backlog_def)
next
  case (Work i)
  with assms(2) have i: "i < length (workers s)"
    and st: "worker_step cfg i (workers s ! i) s = Some s'"
    by (simp_all add: step_def split: if_splits)
  from worker_step_frame(1) [OF st] worker_step_backlog [OF assms(1) i st] assms(4) Work
  show ?thesis by simp
next
  case (Flush i)
  with assms(2) have st: "flush_step i s = Some s'" by (simp add: step_def)
  from flush_step_frame(6) [OF st] flush_step_backlog [OF st] assms(4) Flush
  show ?thesis by simp
next
  case Interrupt
  with assms(3) show ?thesis by simp
qed

lemma draining_exec:
  "inv s \<Longrightarrow> exec cfg evs s = Some s' \<Longrightarrow> Interrupt \<notin> set evs \<Longrightarrow>
   coord s = Draining n c cp sc \<Longrightarrow>
   (\<exists>cp' sc'. coord s' = Returned (Summary n cp' sc' c))
   \<or> (\<exists>cp' sc'. coord s' = Draining n c cp' sc' \<and> count_list evs Coord + backlog s' \<le> backlog s)"
proof (induction evs arbitrary: s cp sc)
  case Nil
  then show ?case by simp
next
  case (Cons ev evs)
  from Cons.prems(2) obtain s1 where 1: "step cfg ev s = Some s1" and 2: "exec cfg evs s1 = Some s'"
    unfolding exec_Cons_Some by blast
  from Cons.prems(3) have ne: "ev \<noteq> Interrupt" and rest: "Interrupt \<notin> set evs" by auto
  have inv1: "inv s1" using Cons.prems(1) 1 by (rule inv_step)
  from draining_step [OF Cons.prems(1) 1 ne Cons.prems(4)] show ?case
  proof
    assume r: "coord s1 = Returned (Summary n cp sc c)"
    from returned_exec [OF 2 r] show ?thesis by blast
  next
    assume "\<exists>cp' sc'. coord s1 = Draining n c cp' sc'
               \<and> (if ev = Coord then 1 else 0) + backlog s1 \<le> backlog s"
    then obtain cp1 sc1 where d: "coord s1 = Draining n c cp1 sc1"
      and b: "(if ev = Coord then 1 else 0) + backlog s1 \<le> backlog s" by blast
    from Cons.IH [OF inv1 2 rest d] show ?thesis
    proof
      assume "\<exists>cp' sc'. coord s' = Returned (Summary n cp' sc' c)"
      then show ?thesis by blast
    next
      assume "\<exists>cp' sc'. coord s' = Draining n c cp' sc'
                 \<and> count_list evs Coord + backlog s' \<le> backlog s1"
      then obtain cp2 sc2 where "coord s' = Draining n c cp2 sc2"
        and "count_list evs Coord + backlog s' \<le> backlog s1" by blast
      with b have "coord s' = Draining n c cp2 sc2
          \<and> count_list (ev # evs) Coord + backlog s' \<le> backlog s"
        by (cases "ev = Coord") simp_all
      then show ?thesis by blast
    qed
  qed
qed


section \<open>Rounding to binary64\<close>

lemma pow2_bitlen:
  assumes "0 < a"
  shows "(2::rat) powi (bitlen a - 1) \<le> of_int a" and "of_int a < (2::rat) powi bitlen a"
proof -
  from bitlen_bounds [OF assms] have 1: "2 ^ nat (bitlen a - 1) \<le> a" and 2: "a < 2 ^ nat (bitlen a)"
    by simp_all
  have ge: "1 \<le> bitlen a" using assms by (auto simp add: bitlen_alt_def)
  have "(2::rat) powi (bitlen a - 1) = 2 ^ nat (bitlen a - 1)"
    using ge by (simp add: power_int_def)
  also have "\<dots> = of_int (2 ^ nat (bitlen a - 1))" by simp
  also have "\<dots> \<le> of_int a" using 1 by (simp only: of_int_le_iff)
  finally show "(2::rat) powi (bitlen a - 1) \<le> of_int a" .
  have "(of_int a :: rat) < of_int (2 ^ nat (bitlen a))" using 2 by (simp only: of_int_less_iff)
  also have "\<dots> = 2 ^ nat (bitlen a)" by simp
  also have "\<dots> = (2::rat) powi bitlen a" using ge by (simp add: power_int_def)
  finally show "of_int a < (2::rat) powi bitlen a" .
qed

lemma floor_log2_bounds:
  assumes "0 < x"
  shows "2 powi floor_log2 x \<le> x" and "x < 2 powi (floor_log2 x + 1)"
proof -
  obtain a b where q: "quotient_of x = (a, b)" by (cases "quotient_of x")
  then have b: "0 < b" and x: "x = of_int a / of_int b"
    by (simp_all add: quotient_of_denom_pos quotient_of_div)
  have a: "0 < a" using assms b x by (simp add: zero_less_divide_iff)
  let ?k = "bitlen a - bitlen b"
  note A = pow2_bitlen [OF a] and B = pow2_bitlen [OF b]
  have bpos: "(0::rat) < of_int b" using b by simp
  have "x < 2 powi bitlen a / 2 powi (bitlen b - 1)"
    unfolding x using A(2) B(1) bpos a
    by (intro frac_less) simp_all
  also have "\<dots> = 2 powi (bitlen a - (bitlen b - 1))" by (simp add: power_int_diff)
  also have "bitlen a - (bitlen b - 1) = ?k + 1" by simp
  finally have up: "x < 2 powi (?k + 1)" .
  have "?k - 1 = bitlen a - 1 - bitlen b" by simp
  then have "(2::rat) powi (?k - 1) = 2 powi (bitlen a - 1 - bitlen b)" by (rule arg_cong)
  also have "\<dots> = 2 powi (bitlen a - 1) / 2 powi bitlen b"
    by (simp add: power_int_diff)
  also have "\<dots> < x"
    unfolding x using A(1) B(2) bpos a
    by (intro frac_less2) simp_all
  finally have lo: "2 powi (?k - 1) < x" .
  show "2 powi floor_log2 x \<le> x"
    using lo by (simp add: floor_log2_def q Let_def)
  have "x < 2 powi ?k" if "\<not> 2 powi ?k \<le> x" using that by simp
  then show "x < 2 powi (floor_log2 x + 1)"
    using up by (simp add: floor_log2_def q Let_def)
qed

lemma round_half_even_bounds:
  shows "\<lfloor>y\<rfloor> \<le> round_half_even y" and "round_half_even y \<le> \<lceil>y\<rceil>"
    and "\<bar>of_int (round_half_even y) - y\<bar> \<le> 1 / 2"
proof -
  have f: "of_int \<lfloor>y\<rfloor> \<le> y" "y < of_int \<lfloor>y\<rfloor> + 1" by linarith+
  show "\<lfloor>y\<rfloor> \<le> round_half_even y" by (simp add: round_half_even_def Let_def)
  have "\<lceil>y\<rceil> = \<lfloor>y\<rfloor> + 1" if "of_int \<lfloor>y\<rfloor> < y"
    using that f by (simp add: ceiling_eq_iff)
  moreover have "\<lfloor>y\<rfloor> \<le> \<lceil>y\<rceil>" by (simp add: floor_le_ceiling)
  ultimately show "round_half_even y \<le> \<lceil>y\<rceil>"
    by (auto simp add: round_half_even_def Let_def)
  show "\<bar>of_int (round_half_even y) - y\<bar> \<le> 1 / 2"
    using f unfolding round_half_even_def Let_def
    by (auto simp add: abs_if) linarith+
qed

lemma round_half_even_up:
  "1 / 2 < y - of_int \<lfloor>y\<rfloor> \<Longrightarrow> round_half_even y = \<lfloor>y\<rfloor> + 1"
  by (simp add: round_half_even_def Let_def)

lemma pow2_less_imp_less: "(2::rat) powi a < 2 powi b \<Longrightarrow> a < b"
proof (rule ccontr)
  assume less: "(2::rat) powi a < 2 powi b" and "\<not> a < b"
  then have "b \<le> a" by simp
  then have "(2::rat) powi b \<le> 2 powi a" by (intro power_int_increasing) simp_all
  with less show False by simp
qed

lemma binary64_normal:
  assumes pos: "0 < x" and lo: "2 powi (- 1022) \<le> x" and hi: "x < 2 powi 1023"
  shows "binary64 x
           = Inr (of_int (round_half_even (x / 2 powi (floor_log2 x - 52)))
                    * 2 powi (floor_log2 x - 52))"
    and "- 1022 \<le> floor_log2 x" and "floor_log2 x \<le> 1022"
proof -
  let ?e = "floor_log2 x"
  let ?q = "?e - 52"
  let ?y = "x / 2 powi ?q"
  let ?m = "round_half_even ?y"
  note B = floor_log2_bounds [OF pos]
  have "(2::rat) powi (- 1022) < 2 powi (?e + 1)" using lo B(2) by (rule le_less_trans)
  then have "- 1022 < ?e + 1" by (rule pow2_less_imp_less)
  then show e_lo: "- 1022 \<le> ?e" by simp
  have "(2::rat) powi ?e < 2 powi 1023" using B(1) hi by (rule le_less_trans)
  then have "?e < 1023" by (rule pow2_less_imp_less)
  then show e_hi: "?e \<le> 1022" by simp
  have qpos: "(0::rat) < 2 powi ?q" by simp
  have "?y < 2 powi (?e + 1) / 2 powi ?q" using B(2) qpos by (simp add: divide_strict_right_mono)
  also have "\<dots> = 2 powi (?e + 1 - ?q)" by (rule power_int_diff [symmetric]) simp
  also have "?e + 1 - ?q = 53" by simp
  finally have "?y < 2 powi 53" .
  then have "?y \<le> of_int (2 ^ 53)" by simp
  then have "\<lceil>?y\<rceil> \<le> 2 ^ 53" by (simp only: ceiling_le_iff)
  with round_half_even_bounds(2) [of ?y] have "?m \<le> 2 ^ 53" by (rule order_trans)
  then have "(of_int ?m :: rat) \<le> of_int (2 ^ 53)" by (simp only: of_int_le_iff)
  then have "of_int ?m * 2 powi ?q \<le> of_int (2 ^ 53) * (2::rat) powi ?q"
    using qpos by (simp add: mult_right_mono)
  also have "of_int (2 ^ 53) * (2::rat) powi ?q = 2 powi 53 * 2 powi ?q" by simp
  also have "\<dots> = 2 powi (53 + ?q)" by (rule power_int_add [symmetric]) simp
  also have "53 + ?q = ?e + 1" by simp
  also have "(2::rat) powi (?e + 1) \<le> 2 powi 1023"
    using e_hi by (intro power_int_increasing) simp_all
  also have "(2::rat) powi 1023 < 2 powi 1024"
    by (intro power_int_strict_increasing) simp_all
  finally have small: "of_int ?m * 2 powi ?q < (2::rat) powi 1024" .
  have mx: "max ?e (- 1022) = ?e" using e_lo by simp
  have ne: "x \<noteq> 0" "\<bar>x\<bar> = x" "sgn x = 1" using pos by simp_all
  show "binary64 x = Inr (of_int ?m * 2 powi ?q)"
    unfolding binary64_def Let_def ne mx using small ne(1) by simp
qed

lemma binary64_relative_error:
  assumes pos: "0 < x" and lo: "2 powi (- 1022) \<le> x" and hi: "x < 2 powi 1023"
  shows "\<exists>r. binary64 x = Inr r \<and> \<bar>r - x\<bar> \<le> x / 2 ^ 53"
proof -
  let ?e = "floor_log2 x"
  let ?q = "?e - 52"
  let ?y = "x / 2 powi ?q"
  let ?m = "round_half_even ?y"
  let ?r = "of_int ?m * (2::rat) powi ?q"
  note N = binary64_normal [OF assms]
  note B = floor_log2_bounds [OF pos]
  have qpos: "(0::rat) < 2 powi ?q" by simp
  have "?r - x = (of_int ?m - ?y) * 2 powi ?q" by (simp add: algebra_simps)
  then have "\<bar>?r - x\<bar> = \<bar>of_int ?m - ?y\<bar> * 2 powi ?q"
    by (simp add: abs_mult)
  also have "\<dots> \<le> (1 / 2) * 2 powi ?q"
    using round_half_even_bounds(3) [of ?y] qpos by (intro mult_right_mono) simp_all
  also have "(1 / 2) * (2::rat) powi ?q = 2 powi ?e / 2 ^ 53"
  proof -
    have "(2::rat) powi ?q = 2 powi ?e / 2 powi 52" by (rule power_int_diff) simp
    then show ?thesis by simp
  qed
  also have "\<dots> \<le> x / 2 ^ 53" using B(1) by (simp add: divide_right_mono)
  finally have "\<bar>?r - x\<bar> \<le> x / 2 ^ 53" .
  with N(1) show ?thesis by blast
qed

lemma of_int_bounds:
  assumes "0 < a" "a < 2 ^ 53"
  shows "(1::rat) \<le> of_int a" and "(of_int a :: rat) < 2 ^ 53"
proof -
  from assms(1) have "1 \<le> a" by simp
  then have "(of_int 1 :: rat) \<le> of_int a" by (simp only: of_int_le_iff)
  then show "(1::rat) \<le> of_int a" by simp
  from assms(2) have "(of_int a :: rat) < of_int (2 ^ 53)" by (simp only: of_int_less_iff)
  then show "(of_int a :: rat) < 2 ^ 53" by simp
qed

lemma pow2_subnormal_le: "(2::rat) powi (- 1022) \<le> 2 powi (- 53)"
  by (intro power_int_increasing) simp_all

lemma pow2_minus_53: "(2::rat) powi (- 53) = 1 / 2 ^ 53"
  by (simp add: power_int_minus inverse_eq_divide)

lemma pow2_53_le: "(2::rat) ^ 53 \<le> 2 powi 1023"
proof -
  have "(2::rat) powi 53 \<le> 2 powi 1023" by (intro power_int_increasing) simp_all
  then show ?thesis by (simp only: power_int_numeral)
qed

lemma quotient_in_range:
  assumes "0 < a" "a < 2 ^ 53" "0 < b" "b < 2 ^ 53"
  shows "(0::rat) < of_int a / of_int b" and "2 powi (- 1022) \<le> (of_int a / of_int b :: rat)"
    and "(of_int a / of_int b :: rat) < 2 powi 1023" and "(of_int a / of_int b :: rat) < 2 ^ 53"
proof -
  note a = of_int_bounds [OF assms(1,2)] and b = of_int_bounds [OF assms(3,4)]
  have a0: "(0::rat) < of_int a" and b0: "(0::rat) < of_int b" using assms(1,3) by simp_all
  show "(0::rat) < of_int a / of_int b" using a0 b0 by (rule divide_pos_pos)
  have "(1::rat) / 2 ^ 53 \<le> of_int a / of_int b"
    using a(1) b(2) b0 by (intro frac_le) simp_all
  with pow2_subnormal_le pow2_minus_53 show "2 powi (- 1022) \<le> (of_int a / of_int b :: rat)" by linarith
  have "(of_int a / of_int b :: rat) \<le> of_int a / 1"
    using a0 b(1) by (intro frac_le) simp_all
  then have "(of_int a / of_int b :: rat) \<le> of_int a" by simp
  from this a(2) show small: "(of_int a / of_int b :: rat) < 2 ^ 53" by (rule le_less_trans)
  from small pow2_53_le show "(of_int a / of_int b :: rat) < 2 powi 1023" by (rule less_le_trans)
qed

lemma scaled_round_ceiling:
  fixes x y :: rat and P n m s v :: int
  assumes P: "0 < P" and s: "0 < s" and x: "x = of_int v / of_int s"
    and n: "n = \<lceil>x\<rceil>" and y: "y = x * of_int P" and m: "m = round_half_even y"
    and sP: "(of_int s :: rat) < 2 * of_int P"
  shows "\<lceil>of_int m / (of_int P :: rat)\<rceil> = n"
proof -
  have Ppos: "(0::rat) < of_int P" using P by simp
  have spos: "(0::rat) < of_int s" using s by simp
  have "x \<le> of_int n" unfolding n by (rule le_of_int_ceiling)
  then have "y \<le> of_int n * of_int P" unfolding y using Ppos by (intro mult_right_mono) simp_all
  then have "y \<le> of_int (n * P)" by simp
  then have "\<lceil>y\<rceil> \<le> n * P" by (simp only: ceiling_le_iff)
  with round_half_even_bounds(2) [of y] have "m \<le> n * P" unfolding m by (rule order_trans)
  then have "(of_int m :: rat) \<le> of_int (n * P)" by (simp only: of_int_le_iff)
  then have "(of_int m :: rat) \<le> of_int n * of_int P" by simp
  then have upper: "of_int m / (of_int P :: rat) \<le> of_int n"
    using Ppos by (simp only: pos_divide_le_eq)
  have "of_int n - 1 < x" unfolding n by (rule ceiling_correct [THEN conjunct1])
  then have "of_int (n - 1) < (of_int v :: rat) / of_int s" unfolding x by simp
  then have "of_int (n - 1) * of_int s < (of_int v :: rat)"
    using spos by (simp only: pos_less_divide_eq)
  then have "(of_int ((n - 1) * s) :: rat) < of_int v" by simp
  then have "(n - 1) * s < v" by (simp only: of_int_less_iff)
  then have "(n - 1) * s + 1 \<le> v" by simp
  then have "(of_int ((n - 1) * s + 1) :: rat) \<le> of_int v" by (simp only: of_int_le_iff)
  then have "(of_int ((n - 1) * s + 1) :: rat) / of_int s \<le> x"
    unfolding x using spos by (intro divide_right_mono) simp_all
  moreover have "(of_int ((n - 1) * s + 1) :: rat) / of_int s = of_int (n - 1) + 1 / of_int s"
    using spos by (simp add: add_divide_distrib)
  ultimately have gap: "of_int (n - 1) + 1 / of_int s \<le> x" by simp
  have "1 / 2 * (of_int s :: rat) < of_int P" using sP by linarith
  then have half: "1 / 2 < of_int P / (of_int s :: rat)"
    using spos by (simp only: pos_less_divide_eq)
  define M where "M = (n - 1) * P"
  have "(of_int (n - 1) + 1 / of_int s) * (of_int P :: rat) \<le> y"
    unfolding y using gap Ppos by (intro mult_right_mono) simp_all
  moreover have "(of_int (n - 1) + 1 / of_int s) * (of_int P :: rat)
                 = of_int M + of_int P / of_int s"
    unfolding M_def by (simp add: distrib_right)
  ultimately have "of_int M + of_int P / of_int s \<le> y" by simp
  with half have yM: "of_int M + 1 / 2 < y" by linarith
  then have "of_int M \<le> y" by linarith
  then have fl: "M \<le> \<lfloor>y\<rfloor>" by (simp only: le_floor_iff)
  have "M + 1 \<le> m"
  proof (cases "M = \<lfloor>y\<rfloor>")
    case True
    then have "1 / 2 < y - of_int \<lfloor>y\<rfloor>" using yM by linarith
    from round_half_even_up [OF this] True show ?thesis unfolding m by simp
  next
    case False
    with fl have "M + 1 \<le> \<lfloor>y\<rfloor>" by simp
    with round_half_even_bounds(1) [of y] show ?thesis unfolding m by simp
  qed
  then have "(of_int (M + 1) :: rat) \<le> of_int m" by (simp only: of_int_le_iff)
  then have a: "(of_int (M + 1) :: rat) / of_int P \<le> of_int m / of_int P"
    using Ppos by (intro divide_right_mono) simp_all
  have b: "(of_int (M + 1) :: rat) / of_int P = of_int n - 1 + 1 / of_int P"
    unfolding M_def using Ppos by (simp add: add_divide_distrib)
  have c: "(0::rat) < 1 / of_int P" using Ppos by simp
  have lower: "of_int n - 1 < of_int m / (of_int P :: rat)"
    using a c unfolding b by linarith
  show ?thesis using lower upper by (rule ceiling_unique)
qed

lemma pow2_nonpos:
  assumes "q \<le> 0"
  shows "(2::rat) powi q = 1 / of_int (2 ^ nat (- q))"
proof -
  have "(2::rat) powi q = inverse (2 powi (- q))" by (simp add: power_int_minus)
  also have "(2::rat) powi (- q) = 2 ^ nat (- q)" using assms by (simp add: power_int_def)
  finally show ?thesis by (simp add: inverse_eq_divide)
qed

lemma binary64_quotient:
  assumes v: "0 < v" "v < 2 ^ 53" and s: "0 < s" "s < 2 ^ 53"
  shows "\<exists>r. binary64 (of_int v / of_int s) = Inr r
           \<and> \<lceil>r\<rceil> = \<lceil>of_int v / of_int s :: rat\<rceil>
           \<and> \<bar>r - of_int v / of_int s\<bar> \<le> (of_int v / of_int s) / 2 ^ 53"
proof -
  define x :: rat where "x = of_int v / of_int s"
  define e where "e = floor_log2 x"
  define q where "q = e - 52"
  define P :: int where "P = 2 ^ nat (- q)"
  define y where "y = x * of_int P"
  define m where "m = round_half_even y"
  note R = quotient_in_range [OF v s, folded x_def]
  note N = binary64_normal [OF R(1,2,3), folded e_def, folded q_def]
  note B = floor_log2_bounds [OF R(1), folded e_def]
  have spos: "(0::rat) < of_int s" using s(1) by simp
  have "(2::rat) powi e < 2 ^ 53" using B(1) R(4) by (rule le_less_trans)
  then have "(2::rat) powi e < 2 powi 53" by simp
  then have e53: "e < 53" by (rule pow2_less_imp_less)
  then have q0: "q \<le> 0" unfolding q_def by simp
  have Ppos: "0 < P" unfolding P_def by simp
  have Pq: "(2::rat) powi q = 1 / of_int P" unfolding P_def using q0 by (rule pow2_nonpos)
  have yq: "x / 2 powi q = y" unfolding Pq y_def by simp
  note N1 = N(1) [unfolded yq, folded m_def, unfolded Pq]
  have r: "binary64 x = Inr (of_int m / of_int P)"
    using N1 by simp
  have "of_int s * (2::rat) powi e \<le> of_int s * x" using B(1) spos by (intro mult_left_mono) simp_all
  also have "of_int s * x = of_int v" unfolding x_def using spos by simp
  also have "(of_int v :: rat) < 2 ^ 53" by (rule of_int_bounds(2) [OF v])
  finally have "of_int s * (2::rat) powi e < 2 ^ 53" .
  moreover have "(0::rat) < 2 powi e" by simp
  ultimately have "of_int s < (2::rat) ^ 53 / 2 powi e" by (simp only: pos_less_divide_eq)
  also have "(2::rat) ^ 53 = 2 powi 53" by simp
  also have "(2::rat) powi 53 / 2 powi e = 2 powi (53 - e)" by (rule power_int_diff [symmetric]) simp
  also have "53 - e = 1 + (- q)" unfolding q_def by simp
  also have "(2::rat) powi (1 + (- q)) = 2 powi 1 * 2 powi (- q)" by (rule power_int_add) simp
  also have "(2::rat) powi (- q) = of_int P"
    unfolding P_def using q0 by (simp add: power_int_def)
  finally have sP: "(of_int s :: rat) < 2 * of_int P" by simp
  have c: "\<lceil>of_int m / (of_int P :: rat)\<rceil> = \<lceil>x\<rceil>"
    using Ppos s(1) x_def refl y_def m_def sP by (rule scaled_round_ceiling)
  from binary64_relative_error [OF R(1,2,3)] r
  have "\<bar>of_int m / of_int P - x\<bar> \<le> x / 2 ^ 53" by auto
  with r c show ?thesis unfolding x_def by blast
qed

section \<open>Properties of scale_one\<close>

text \<open>
  C4. An image that loads with width and height both at most the bound is copied, whatever
  the smooth flag: \<open>scale_one\<close> is exactly the save of the loaded image itself to the
  target path, and the result it returns, if the save does not raise, is
  \<open>Result 1 0 targetImage\<close> (copied = 1, scaled = 0).
\<close>

theorem small_image_is_copied:
  assumes "from_file lb fs sourceImage = Inr oldImage"
    and "width lb oldImage \<le> sz" and "height lb oldImage \<le> sz"
  shows "scale_one lb sz smooth_flag sourceImage targetImage fs =
           save_as lb fs oldImage targetImage 1 0
         \<and> (\<forall>r fs'. scale_one lb sz smooth_flag sourceImage targetImage fs = (Inr r, fs')
              \<longrightarrow> r = Result 1 0 targetImage \<and> result.copied r = 1 \<and> result.scaled r = 0
                  \<and> save lb fs oldImage targetImage = (None, fs'))"
  using assms by (auto simp add: scale_one_def save_as_def split: option.splits prod.splits)


theorem small_image_is_copied_witness:
  "from_file demo_lib [(''/s/a'', (300, 200))] ''/s/a'' = Inr (300, 200)
   \<and> width demo_lib (300, 200) \<le> 400 \<and> height demo_lib (300, 200) \<le> 400
   \<and> scale_one demo_lib 400 True ''/s/a'' ''/t/a'' [(''/s/a'', (300, 200))]
       = (Inr (Result 1 0 ''/t/a''), [(''/t/a'', (300, 200)), (''/s/a'', (300, 200))])
   \<and> scale_one demo_lib 400 False ''/s/a'' ''/t/a'' [(''/s/a'', (300, 200))]
       = (Inr (Result 1 0 ''/t/a''), [(''/t/a'', (300, 200)), (''/s/a'', (300, 200))])"
proof -
  have a: "from_file demo_lib [(''/s/a'', (300, 200))] ''/s/a'' = Inr (300, 200)"
    by (simp add: demo_lib_def)
  have b: "width demo_lib (300, 200) \<le> 400" "height demo_lib (300, 200) \<le> 400"
    by (simp_all add: demo_lib_def)
  have c: "save_as demo_lib [(''/s/a'', (300, 200))] (300, 200) ''/t/a'' 1 0
     = (Inr (Result 1 0 ''/t/a''), [(''/t/a'', (300, 200)), (''/s/a'', (300, 200))])"
    by (simp add: demo_lib_def save_as_def)
  have t: "scale_one demo_lib 400 True ''/s/a'' ''/t/a'' [(''/s/a'', (300, 200))]
       = save_as demo_lib [(''/s/a'', (300, 200))] (300, 200) ''/t/a'' 1 0"
    using small_image_is_copied [OF a b, of True "''/t/a''"] by (rule conjunct1)
  have f: "scale_one demo_lib 400 False ''/s/a'' ''/t/a'' [(''/s/a'', (300, 200))]
       = save_as demo_lib [(''/s/a'', (300, 200))] (300, 200) ''/t/a'' 1 0"
    using small_image_is_copied [OF a b, of False "''/t/a''"] by (rule conjunct1)
  show ?thesis
    apply (intro conjI)
    apply (rule a)
    apply (rule b(1))
    apply (rule b(2))
    apply (simp only: t c)
    apply (simp only: f c)
    done
qed

lemma truediv_quotient:
  assumes "0 < a" "a < 2 ^ 53" "0 < b" "b < 2 ^ 53"
  shows "\<exists>r. truediv a b = Inr r
           \<and> \<lceil>r\<rceil> = \<lceil>of_int a / of_int b :: rat\<rceil>
           \<and> \<bar>r - of_int a / of_int b\<bar> \<le> (of_int a / of_int b) / 2 ^ 53"
  using binary64_quotient [OF assms] assms(3) by (simp add: truediv_def)

lemma ceiling_max: "\<lceil>max a b\<rceil> = max \<lceil>a\<rceil> \<lceil>b :: rat\<rceil>"
proof (cases "a \<le> b")
  case True
  then have "\<lceil>a\<rceil> \<le> \<lceil>b\<rceil>" by (rule ceiling_mono)
  with True show ?thesis by (simp add: max_def)
next
  case False
  then have "b \<le> a" by simp
  then have "\<lceil>b\<rceil> \<le> \<lceil>a\<rceil>" by (rule ceiling_mono)
  with False show ?thesis by (simp add: max_def)
qed

lemma stride_value:
  assumes "0 < sz" "sz < 2 ^ 53" "0 < w" "w < 2 ^ 53" "0 < h" "h < 2 ^ 53"
  shows "subsample_stride sz w h
           = Inr \<lceil>max (of_int w / of_int sz :: rat) (of_int h / of_int sz)\<rceil>"
proof -
  from truediv_quotient [OF assms(3,4,1,2)] obtain a where
    a: "truediv w sz = Inr a" "\<lceil>a\<rceil> = \<lceil>of_int w / of_int sz :: rat\<rceil>" by blast
  from truediv_quotient [OF assms(5,6,1,2)] obtain b where
    b: "truediv h sz = Inr b" "\<lceil>b\<rceil> = \<lceil>of_int h / of_int sz :: rat\<rceil>" by blast
  have "subsample_stride sz w h = Inr \<lceil>max a b\<rceil>"
    by (simp add: subsample_stride_def a(1) b(1))
  also have "\<lceil>max a b\<rceil> = \<lceil>max (of_int w / of_int sz :: rat) (of_int h / of_int sz)\<rceil>"
    by (simp only: ceiling_max a(2) b(2))
  finally show ?thesis .
qed

text \<open>
  C6. For a loaded image with a side above the bound and no smooth scaling, the stride is
  \<open>\<lceil>max (width / bound) (height / bound)\<rceil>\<close> of the exact quotients; it is at least 1,
  both sides divided by it are within the bound, every stride \<open>j \<ge> 1\<close> with that
  property is at least as large, and it is the stride handed to the library's
  \<^verbatim>\<open>subsample\<close>. Width, height and bound are positive and below \<open>2 ^ 53\<close>, where
  rounding a quotient to a float does not change its ceiling.
\<close>

theorem stride_is_smallest_fit:
  assumes "from_file lb fs sourceImage = Inr oldImage"
    and "w = width lb oldImage" and "h = height lb oldImage"
    and sz: "0 < sz" "sz < 2 ^ 53" and w: "0 < w" "w < 2 ^ 53" and h: "0 < h" "h < 2 ^ 53"
    and big: "sz < w \<or> sz < h"
  shows "subsample_stride sz w h
           = Inr \<lceil>max (of_int w / of_int sz :: rat) (of_int h / of_int sz)\<rceil>
         \<and> 1 \<le> \<lceil>max (of_int w / of_int sz :: rat) (of_int h / of_int sz)\<rceil>
         \<and> (of_int w / of_int \<lceil>max (of_int w / of_int sz :: rat) (of_int h / of_int sz)\<rceil> :: rat)
              \<le> of_int sz
         \<and> (of_int h / of_int \<lceil>max (of_int w / of_int sz :: rat) (of_int h / of_int sz)\<rceil> :: rat)
              \<le> of_int sz
         \<and> (\<forall>j. 1 \<le> j \<and> (of_int w / of_int j :: rat) \<le> of_int sz
                    \<and> (of_int h / of_int j :: rat) \<le> of_int sz
               \<longrightarrow> \<lceil>max (of_int w / of_int sz :: rat) (of_int h / of_int sz)\<rceil> \<le> j)
         \<and> scale_one lb sz False sourceImage targetImage fs =
             (case subsample lb oldImage
                     \<lceil>max (of_int w / of_int sz :: rat) (of_int h / of_int sz)\<rceil> of
                Inl e \<Rightarrow> (Inl e, fs)
              | Inr newImage \<Rightarrow> save_as lb fs newImage targetImage 0 1)"
proof -
  let ?m = "max (of_int w / of_int sz :: rat) (of_int h / of_int sz)"
  let ?k = "\<lceil>?m\<rceil>"
  have val: "subsample_stride sz w h = Inr ?k"
    using sz w h by (rule stride_value)
  have "1 < ?m" using sz(1) big by (auto simp: max_def field_simps)
  then have k1: "1 \<le> ?k" by (simp add: le_ceiling_iff)
  have mk: "?m \<le> of_int ?k" by (rule le_of_int_ceiling)
  have "of_int w / of_int sz \<le> ?m" by simp
  then have "of_int w / of_int sz \<le> (of_int ?k :: rat)" using mk by (rule order_trans)
  then have fw: "(of_int w / of_int ?k :: rat) \<le> of_int sz"
    using sz(1) k1 by (simp add: field_simps)
  have "of_int h / of_int sz \<le> ?m" by simp
  then have "of_int h / of_int sz \<le> (of_int ?k :: rat)" using mk by (rule order_trans)
  then have fh: "(of_int h / of_int ?k :: rat) \<le> of_int sz"
    using sz(1) k1 by (simp add: field_simps)
  have least: "\<forall>j. 1 \<le> j \<and> (of_int w / of_int j :: rat) \<le> of_int sz
                  \<and> (of_int h / of_int j :: rat) \<le> of_int sz \<longrightarrow> ?k \<le> j"
  proof (intro allI impI)
    fix j :: int
    assume "1 \<le> j \<and> (of_int w / of_int j :: rat) \<le> of_int sz
              \<and> (of_int h / of_int j :: rat) \<le> of_int sz"
    then have j: "0 < j" and wj: "(of_int w / of_int j :: rat) \<le> of_int sz"
      and hj: "(of_int h / of_int j :: rat) \<le> of_int sz" by simp_all
    have "of_int w / of_int sz \<le> (of_int j :: rat)" "of_int h / of_int sz \<le> (of_int j :: rat)"
      using sz(1) j wj hj by (simp_all add: field_simps)
    then have "?m \<le> of_int j" by simp
    then show "?k \<le> j" by (simp add: ceiling_le_iff)
  qed
  have run: "scale_one lb sz False sourceImage targetImage fs =
               (case subsample lb oldImage ?k of
                  Inl e \<Rightarrow> (Inl e, fs)
                | Inr newImage \<Rightarrow> save_as lb fs newImage targetImage 0 1)"
    using assms(1) big val unfolding assms(2,3) by (auto simp add: scale_one_def)
  show ?thesis
    apply (intro conjI)
    apply (rule val)
    apply (rule k1)
    apply (rule fw)
    apply (rule fh)
    apply (rule least)
    apply (rule run)
    done
qed

theorem stride_is_smallest_fit_witness:
  "from_file demo_lib [(''/s/a'', (800, 400))] ''/s/a'' = Inr (800, 400)
   \<and> subsample_stride 400 800 400 = Inr 2
   \<and> scale_one demo_lib 400 False ''/s/a'' ''/t/a'' [(''/s/a'', (800, 400))]
       = (Inr (Result 0 1 ''/t/a''), [(''/t/a'', (400, 200)), (''/s/a'', (800, 400))])"
proof -
  have a: "from_file demo_lib [(''/s/a'', (800, 400))] ''/s/a'' = Inr (800, 400)"
    by (simp add: demo_lib_def)
  have b: "(800::int) = width demo_lib (800, 400)" "(400::int) = height demo_lib (800, 400)"
    by (simp_all add: demo_lib_def)
  have c: "(0::int) < 400" "(400::int) < 2 ^ 53" "(0::int) < 800" "(800::int) < 2 ^ 53"
    "(0::int) < 400" "(400::int) < 2 ^ 53" "(400::int) < 800 \<or> (400::int) < 400" by simp_all
  have d: "subsample demo_lib (800, 400) 2 = Inr (400, 200)"
    by (simp add: demo_lib_def)
  have e: "save_as demo_lib [(''/s/a'', (800, 400))] (400, 200) ''/t/a'' 0 1
      = (Inr (Result 0 1 ''/t/a''), [(''/t/a'', (400, 200)), (''/s/a'', (800, 400))])"
    by (simp add: demo_lib_def save_as_def)
  have f: "\<lceil>max (of_int 800 / of_int 400 :: rat) (of_int 400 / of_int 400)\<rceil> = 2" by simp
  note t = stride_is_smallest_fit [OF a b c, of "''/t/a''", unfolded f]
  have v: "subsample_stride 400 800 400 = Inr 2" using t by (rule conjunct1)
  have r: "scale_one demo_lib 400 False ''/s/a'' ''/t/a'' [(''/s/a'', (800, 400))] =
             (case subsample demo_lib (800, 400) 2 of
                Inl e \<Rightarrow> (Inl e, [(''/s/a'', (800, 400))])
              | Inr newImage \<Rightarrow>
                  save_as demo_lib [(''/s/a'', (800, 400))] newImage ''/t/a'' 0 1)"
    using t by (elim conjE)
  show ?thesis using a v r d e by simp
qed

lemma binary64_eval:
  assumes "0 < x" and "2 powi (- 1022) \<le> x" and "x < 2 powi 1023"
    and "floor_log2 x = e" and "round_half_even (x / 2 powi (e - 52)) = m"
  shows "binary64 x = Inr (of_int m * 2 powi (e - 52))"
  using binary64_normal(1) [OF assms(1,2,3)] unfolding assms(4) assms(5) .

lemma quotient_400_530: "truediv 400 530 = Inr (3398943114996601 / 4503599627370496)"
proof -
  have "binary64 (400 / 530) = Inr (of_int 6797886229993202 * 2 powi (- 1 - 52))"
  proof (rule binary64_eval)
    show "floor_log2 (400 / 530) = - 1" by code_simp
    show "round_half_even (400 / 530 / 2 powi (- 1 - 52)) = 6797886229993202" by code_simp
  qed simp_all
  also have "(of_int 6797886229993202 * 2 powi (- 1 - 52) :: rat)
               = 3398943114996601 / 4503599627370496"
    by (simp add: power_int_minus)
  finally show ?thesis by (simp add: truediv_def)
qed

lemma quotient_400_300: "truediv 400 300 = Inr (6004799503160661 / 4503599627370496)"
proof -
  have "binary64 (400 / 300) = Inr (of_int 6004799503160661 * 2 powi (0 - 52))"
  proof (rule binary64_eval)
    show "floor_log2 (400 / 300) = 0" by code_simp
    show "round_half_even (400 / 300 / 2 powi (0 - 52)) = 6004799503160661" by code_simp
  qed simp_all
  also have "(of_int 6004799503160661 * 2 powi (0 - 52) :: rat)
               = 6004799503160661 / 4503599627370496"
    by (simp add: power_int_minus)
  finally show ?thesis by (simp add: truediv_def)
qed

lemma product_530:
  "binary64 (3398943114996601 / 4503599627370496 * 530) = Inr (7036874417766401 / 17592186044416)"
proof -
  have "binary64 (3398943114996601 / 4503599627370496 * 530)
          = Inr (of_int 7036874417766401 * 2 powi (8 - 52))"
  proof (rule binary64_eval)
    show "floor_log2 (3398943114996601 / 4503599627370496 * 530) = 8" by code_simp
    show "round_half_even (3398943114996601 / 4503599627370496 * 530 / 2 powi (8 - 52))
            = 7036874417766401" by code_simp
  qed simp_all
  also have "(of_int 7036874417766401 * 2 powi (8 - 52) :: rat)
               = 7036874417766401 / 17592186044416"
    by (simp add: power_int_minus)
  finally show ?thesis .
qed

text \<open>
  C5, as stated, fails: for the bound 400 and an image of 530 by 300 the factor is the
  float nearest to \<open>400 / 530\<close>, which lies above it, so the factor is not the exact
  minimum and factor times width exceeds the bound, in exact arithmetic and also when the
  product is rounded to a float (\<^verbatim>\<open>400.00000000000006\<close>).
\<close>

theorem smooth_factor_overshoot_counterexample:
  "smooth_factor 400 530 300 = Inr (3398943114996601 / 4503599627370496)
   \<and> (3398943114996601 / 4503599627370496 :: rat) \<noteq> min (400 / 530) (400 / 300)
   \<and> (400 :: rat) < 3398943114996601 / 4503599627370496 * 530
   \<and> binary64 (3398943114996601 / 4503599627370496 * 530)
        = Inr (7036874417766401 / 17592186044416)
   \<and> (400 :: rat) < 7036874417766401 / 17592186044416"
proof (intro conjI)
  show "smooth_factor 400 530 300 = Inr (3398943114996601 / 4503599627370496)"
    by (simp add: smooth_factor_def quotient_400_530 quotient_400_300)
  show "binary64 (3398943114996601 / 4503599627370496 * 530)
        = Inr (7036874417766401 / 17592186044416)"
    by (rule product_530)
qed simp_all

lemma relative_error_bounds:
  fixes r x :: rat
  assumes "\<bar>r - x\<bar> \<le> x / 2 ^ 53"
  shows "x * (1 - 1 / 2 ^ 53) \<le> r" and "r \<le> x * (1 + 1 / 2 ^ 53)"
proof -
  have a: "x * (1 - 1 / 2 ^ 53) = x - x / 2 ^ 53" by (simp add: right_diff_distrib)
  have b: "x * (1 + 1 / 2 ^ 53) = x + x / 2 ^ 53" by (simp add: distrib_left)
  from assms show "x * (1 - 1 / 2 ^ 53) \<le> r" unfolding a by linarith
  from assms show "r \<le> x * (1 + 1 / 2 ^ 53)" unfolding b by linarith
qed

text \<open>
  C5, amended. For a loaded image with a side above the bound and smooth scaling (width,
  height and bound positive and below \<open>2 ^ 53\<close>), the factor is \<open>min a b\<close>, where
  \<open>a\<close> and \<open>b\<close> are the quotients \<open>bound / width\<close> and \<open>bound / height\<close>, each
  rounded to the nearest float, and each within the relative error \<open>1 / 2 ^ 53\<close> of the
  exact quotient. So the factor is within that relative error of the exact minimum, both
  scaled sides are at most \<open>bound * (1 + 1 / 2 ^ 53)\<close>, and every factor that keeps
  both sides within the bound is at most the chosen one up to the same relative error.
  When rounding leaves both quotients unchanged (they are floats), the factor is the exact
  minimum, both scaled sides are within the bound, and no factor with that property is
  larger. It is the factor handed to the library's \<^verbatim>\<open>scale\<close>.
\<close>

theorem smooth_factor_is_rounded_minimum:
  assumes "from_file lb fs sourceImage = Inr oldImage"
    and "w = width lb oldImage" and "h = height lb oldImage"
    and sz: "0 < sz" "sz < 2 ^ 53" and w: "0 < w" "w < 2 ^ 53" and h: "0 < h" "h < 2 ^ 53"
    and big: "sz < w \<or> sz < h"
  shows "\<exists>a b. binary64 (of_int sz / of_int w) = Inr a
           \<and> binary64 (of_int sz / of_int h) = Inr b
           \<and> smooth_factor sz w h = Inr (min a b)
           \<and> \<bar>a - of_int sz / of_int w\<bar> \<le> (of_int sz / of_int w) / 2 ^ 53
           \<and> \<bar>b - of_int sz / of_int h\<bar> \<le> (of_int sz / of_int h) / 2 ^ 53
           \<and> min (of_int sz / of_int w) (of_int sz / of_int h) * (1 - 1 / 2 ^ 53) \<le> min a b
           \<and> min a b \<le> min (of_int sz / of_int w) (of_int sz / of_int h) * (1 + 1 / 2 ^ 53)
           \<and> min a b * of_int w \<le> of_int sz * (1 + 1 / 2 ^ 53)
           \<and> min a b * of_int h \<le> of_int sz * (1 + 1 / 2 ^ 53)
           \<and> (\<forall>g. g * of_int w \<le> of_int sz \<and> g * of_int h \<le> of_int sz
                 \<longrightarrow> g * (1 - 1 / 2 ^ 53) \<le> min a b)
           \<and> (a = of_int sz / of_int w \<and> b = of_int sz / of_int h \<longrightarrow>
                 min a b = min (of_int sz / of_int w) (of_int sz / of_int h)
                 \<and> min a b * of_int w \<le> of_int sz \<and> min a b * of_int h \<le> of_int sz
                 \<and> (\<forall>g. g * of_int w \<le> of_int sz \<and> g * of_int h \<le> of_int sz
                       \<longrightarrow> g \<le> min a b))
           \<and> scale_one lb sz True sourceImage targetImage fs =
               (case scale_img lb oldImage (min a b) of
                  Inl e \<Rightarrow> (Inl e, fs)
                | Inr newImage \<Rightarrow> save_as lb fs newImage targetImage 0 1)"
proof -
  let ?a = "of_int sz / of_int w :: rat" and ?b = "of_int sz / of_int h :: rat"
  let ?u = "1 / 2 ^ 53 :: rat"
  from binary64_quotient [OF sz w] obtain a where
    ra: "binary64 ?a = Inr a" and ea: "\<bar>a - ?a\<bar> \<le> ?a / 2 ^ 53" by blast
  from binary64_quotient [OF sz h] obtain b where
    rb: "binary64 ?b = Inr b" and eb: "\<bar>b - ?b\<bar> \<le> ?b / 2 ^ 53" by blast
  have a: "truediv sz w = Inr a" using ra w(1) by (simp add: truediv_def)
  have b: "truediv sz h = Inr b" using rb h(1) by (simp add: truediv_def)
  note A = relative_error_bounds [OF ea] and B = relative_error_bounds [OF eb]
  have wpos: "(0::rat) < of_int w" and hpos: "(0::rat) < of_int h" using w(1) h(1) by simp_all
  have u: "0 \<le> 1 - ?u" "0 \<le> 1 + ?u" by simp_all
  have val: "smooth_factor sz w h = Inr (min a b)"
    by (simp add: smooth_factor_def a b)
  have mono_lo: "min ?a ?b * (1 - ?u) \<le> ?a * (1 - ?u)" "min ?a ?b * (1 - ?u) \<le> ?b * (1 - ?u)"
    using u(1) by (intro mult_right_mono; simp)+
  have lo: "min ?a ?b * (1 - ?u) \<le> min a b"
    using mono_lo A(1) B(1) by (simp add: min_def)
  have hi: "min a b \<le> min ?a ?b * (1 + ?u)"
  proof (cases "?a \<le> ?b")
    case True
    then have "min ?a ?b = ?a" by simp
    moreover have "min a b \<le> a" by simp
    ultimately show ?thesis using A(2) by simp
  next
    case False
    then have "min ?a ?b = ?b" by simp
    moreover have "min a b \<le> b" by simp
    ultimately show ?thesis using B(2) by simp
  qed
  have "min a b * of_int w \<le> (?a * (1 + ?u)) * of_int w"
    using A(2) wpos by (intro mult_right_mono) simp_all
  also have "\<dots> = of_int sz * (1 + ?u)" using wpos by simp
  finally have fw: "min a b * of_int w \<le> of_int sz * (1 + ?u)" .
  have "min a b * of_int h \<le> (?b * (1 + ?u)) * of_int h"
    using B(2) hpos by (intro mult_right_mono) simp_all
  also have "\<dots> = of_int sz * (1 + ?u)" using hpos by simp
  finally have fh: "min a b * of_int h \<le> of_int sz * (1 + ?u)" .
  have fits: "g \<le> min ?a ?b"
    if "g * of_int w \<le> of_int sz \<and> g * of_int h \<le> of_int sz" for g :: rat
  proof -
    from that have "g \<le> ?a" "g \<le> ?b" using wpos hpos by (simp_all add: pos_le_divide_eq)
    then show ?thesis by simp
  qed
  have best: "\<forall>g. g * of_int w \<le> of_int sz \<and> g * of_int h \<le> of_int sz
                 \<longrightarrow> g * (1 - ?u) \<le> min a b"
  proof (intro allI impI)
    fix g :: rat
    assume "g * of_int w \<le> of_int sz \<and> g * of_int h \<le> of_int sz"
    then have "g \<le> min ?a ?b" by (rule fits)
    then have "g * (1 - ?u) \<le> min ?a ?b * (1 - ?u)" using u(1) by (rule mult_right_mono)
    from this lo show "g * (1 - ?u) \<le> min a b" by (rule order_trans)
  qed
  have exact: "min a b = min ?a ?b
                 \<and> min a b * of_int w \<le> of_int sz \<and> min a b * of_int h \<le> of_int sz
                 \<and> (\<forall>g. g * of_int w \<le> of_int sz \<and> g * of_int h \<le> of_int sz
                       \<longrightarrow> g \<le> min a b)"
    if "a = ?a \<and> b = ?b"
  proof -
    from that have m: "min a b = min ?a ?b" by simp
    have "min ?a ?b * of_int w \<le> ?a * of_int w" using wpos by (intro mult_right_mono) simp_all
    also have "\<dots> = of_int sz" using wpos by simp
    finally have 1: "min ?a ?b * of_int w \<le> of_int sz" .
    have "min ?a ?b * of_int h \<le> ?b * of_int h" using hpos by (intro mult_right_mono) simp_all
    also have "\<dots> = of_int sz" using hpos by simp
    finally have 2: "min ?a ?b * of_int h \<le> of_int sz" .
    show ?thesis unfolding m using 1 2 fits by blast
  qed
  have run: "scale_one lb sz True sourceImage targetImage fs =
               (case scale_img lb oldImage (min a b) of
                  Inl e \<Rightarrow> (Inl e, fs)
                | Inr newImage \<Rightarrow> save_as lb fs newImage targetImage 0 1)"
    using assms(1) big val unfolding assms(2,3) by (auto simp add: scale_one_def)
  show ?thesis
    apply (rule exI [of _ a], rule exI [of _ b])
    apply (intro conjI)
               apply (rule ra)
              apply (rule rb)
             apply (rule val)
            apply (rule ea)
           apply (rule eb)
          apply (rule lo)
         apply (rule hi)
        apply (rule fw)
       apply (rule fh)
      apply (rule best)
     apply (rule impI, erule exact)
    apply (rule run)
    done
qed

theorem smooth_factor_is_rounded_minimum_witness:
  "from_file demo_lib [(''/s/a'', (800, 1600))] ''/s/a'' = Inr (800, 1600)
   \<and> binary64 (of_int 400 / of_int 800) = Inr (of_int 400 / of_int 800)
   \<and> binary64 (of_int 400 / of_int 1600) = Inr (of_int 400 / of_int 1600)
   \<and> smooth_factor 400 800 1600 = Inr (1 / 4)
   \<and> (1 / 4 :: rat) = min (of_int 400 / of_int 800) (of_int 400 / of_int 1600)
   \<and> (1 / 4 :: rat) * of_int 800 \<le> of_int 400 \<and> (1 / 4 :: rat) * of_int 1600 \<le> of_int 400
   \<and> scale_one demo_lib 400 True ''/s/a'' ''/t/a'' [(''/s/a'', (800, 1600))]
       = (Inr (Result 0 1 ''/t/a''), [(''/t/a'', (200, 400)), (''/s/a'', (800, 1600))])"
proof -
  have a: "from_file demo_lib [(''/s/a'', (800, 1600))] ''/s/a'' = Inr (800, 1600)"
    by (simp add: demo_lib_def)
  have b: "(800::int) = width demo_lib (800, 1600)" "(1600::int) = height demo_lib (800, 1600)"
    by (simp_all add: demo_lib_def)
  have c: "(0::int) < 400" "(400::int) < 2 ^ 53" "(0::int) < 800" "(800::int) < 2 ^ 53"
    "(0::int) < 1600" "(1600::int) < 2 ^ 53" "(400::int) < 800 \<or> (400::int) < 1600"
    by simp_all
  have d: "scale_img demo_lib (800, 1600) (1 / 4) = Inr (200, 400)"
    by (simp add: demo_lib_def)
  have e: "save_as demo_lib [(''/s/a'', (800, 1600))] (200, 400) ''/t/a'' 0 1
      = (Inr (Result 0 1 ''/t/a''), [(''/t/a'', (200, 400)), (''/s/a'', (800, 1600))])"
    by (simp add: demo_lib_def save_as_def)
  have "binary64 (400 / 800) = Inr (of_int 4503599627370496 * 2 powi (- 1 - 52))"
  proof (rule binary64_eval)
    show "floor_log2 (400 / 800) = - 1" by code_simp
    show "round_half_even (400 / 800 / 2 powi (- 1 - 52)) = 4503599627370496" by code_simp
  qed simp_all
  then have q1: "binary64 (of_int 400 / of_int 800) = Inr (1 / 2)"
    by (simp add: power_int_minus)
  have "binary64 (400 / 1600) = Inr (of_int 4503599627370496 * 2 powi (- 2 - 52))"
  proof (rule binary64_eval)
    show "floor_log2 (400 / 1600) = - 2" by code_simp
    show "round_half_even (400 / 1600 / 2 powi (- 2 - 52)) = 4503599627370496" by code_simp
  qed simp_all
  then have q2: "binary64 (of_int 400 / of_int 1600) = Inr (1 / 4)"
    by (simp add: power_int_minus)
  from smooth_factor_is_rounded_minimum [OF a b c, of "''/t/a''"]
  obtain x y where x: "binary64 (of_int 400 / of_int 800) = Inr x"
    and y: "binary64 (of_int 400 / of_int 1600) = Inr y"
    and v: "smooth_factor 400 800 1600 = Inr (min x y)"
    and ex: "x = of_int 400 / of_int 800 \<and> y = of_int 400 / of_int 1600 \<longrightarrow>
                 min x y = min (of_int 400 / of_int 800) (of_int 400 / of_int 1600)
                 \<and> min x y * of_int 800 \<le> of_int 400 \<and> min x y * of_int 1600 \<le> of_int 400
                 \<and> (\<forall>g. g * of_int 800 \<le> of_int 400 \<and> g * of_int 1600 \<le> of_int 400
                       \<longrightarrow> g \<le> min x y)"
    and run: "scale_one demo_lib 400 True ''/s/a'' ''/t/a'' [(''/s/a'', (800, 1600))] =
               (case scale_img demo_lib (800, 1600) (min x y) of
                  Inl e \<Rightarrow> (Inl e, [(''/s/a'', (800, 1600))])
                | Inr newImage \<Rightarrow>
                    save_as demo_lib [(''/s/a'', (800, 1600))] newImage ''/t/a'' 0 1)"
    by (elim exE conjE)
  have x2: "x = 1 / 2" using x q1 by simp
  have y4: "y = 1 / 4" using y q2 by simp
  have m: "min x y = 1 / 4" unfolding x2 y4 by simp
  have "x = of_int 400 / of_int 800 \<and> y = of_int 400 / of_int 1600" unfolding x2 y4 by simp
  with ex have ex1: "min x y = min (of_int 400 / of_int 800) (of_int 400 / of_int 1600)"
    and ex2: "min x y * of_int 800 \<le> of_int 400" and ex3: "min x y * of_int 1600 \<le> of_int 400"
    by blast+
  have r: "scale_one demo_lib 400 True ''/s/a'' ''/t/a'' [(''/s/a'', (800, 1600))]
       = (Inr (Result 0 1 ''/t/a''), [(''/t/a'', (200, 400)), (''/s/a'', (800, 1600))])"
    using run d e unfolding m by simp
  have p1: "binary64 (of_int 400 / of_int 800) = Inr (of_int 400 / of_int 800)"
    using x unfolding x2 by simp
  have p2: "binary64 (of_int 400 / of_int 1600) = Inr (of_int 400 / of_int 1600)"
    using y unfolding y4 by simp
  show ?thesis
    apply (intro conjI)
           apply (rule a)
          apply (rule p1)
         apply (rule p2)
        apply (rule v [unfolded m])
       apply (rule ex1 [unfolded m])
      apply (rule ex2 [unfolded m])
     apply (rule ex3 [unfolded m])
    apply (rule r)
    done
qed

lemma demo_stride: "subsample_stride 400 800 400 = Inr 2"
proof -
  have "subsample_stride 400 800 400
          = Inr \<lceil>max (of_int 800 / of_int 400 :: rat) (of_int 400 / of_int 400)\<rceil>"
    by (rule stride_value) simp_all
  then show ?thesis by simp
qed

lemmas demo_run = demo_setting_def scale_start_def step_def add_job_def put_def get_def
  task_done_def path_join_def attempt_def scale_one_def save_as_def demo_lib_def
  demo_files_def demo_stride progress_line_def basename_def numeral_2_eq_2 flush_step_def

section \<open>add_jobs and the validation of the arguments\<close>

lemma exec_append:
  "exec cfg (xs @ ys) s = (case exec cfg xs s of None \<Rightarrow> None | Some s' \<Rightarrow> exec cfg ys s')"
  by (induction xs arbitrary: s) (simp_all split: option.splits)

lemma creating_loop:
  "coord s = Creating k \<Longrightarrow>
   exec cfg (replicate k Coord) s
     = Some (s\<lparr>workers := workers s @ replicate k Waiting,
               buffers := buffers s @ replicate k [], coord := Creating 0\<rparr>)"
proof (induction k arbitrary: s)
  case 0
  then show ?case by simp
next
  case (Suc k)
  let ?s1 = "s\<lparr>workers := workers s @ [Waiting], buffers := buffers s @ [[]],
               coord := Creating k\<rparr>"
  have 1: "step cfg Coord s = Some ?s1" using Suc.prems by (simp add: step_def)
  have "coord ?s1 = Creating k" by simp
  from Suc.IH [OF this] show ?case using 1 by (simp add: replicate_append_same)
qed

lemma pool_is_started:
  "exec cfg (replicate (nat (concurrency cfg)) Coord) (scale_start cfg fs)
     = Some ((scale_start cfg fs)\<lparr>workers := replicate (nat (concurrency cfg)) Waiting,
                                  buffers := replicate (nat (concurrency cfg)) [],
                                  coord := Creating 0\<rparr>)"
proof -
  have "coord (scale_start cfg fs) = Creating (nat (concurrency cfg))"
    by (simp add: scale_start_def)
  from creating_loop [OF this] show ?thesis by (simp add: scale_start_def)
qed

lemma add_jobs_loop_enumerate:
  "add_jobs_loop src tgt (py_enumerate n names) bound_todo q =
     (if names = [] then bound_todo else Some (n + int (length names) - 1),
      q\<lparr>items := items q @ map (\<lambda>nm. (path_join src nm, path_join tgt nm)) names,
        unfinished := unfinished q + length names\<rparr>)"
proof (induction names arbitrary: n bound_todo q)
  case Nil
  then show ?case by simp
next
  case (Cons nm names)
  show ?case by (simp add: Cons.IH add_job_def put_def)
qed

lemma add_jobs_counts_entries:
  "names \<noteq> [] \<Longrightarrow>
   add_jobs (\<lambda>p. Inr names) src tgt q =
     (Inr (int (length names)),
      q\<lparr>items := items q @ map (\<lambda>nm. (path_join src nm, path_join tgt nm)) names,
        unfinished := unfinished q + length names\<rparr>)"
  by (simp add: add_jobs_def add_jobs_loop_enumerate)

text \<open>
  Left alone, the coordinator in the loop of \<^verbatim>\<open>add_jobs\<close> does what
  \<open>add_jobs_loop\<close> computes.
\<close>

lemma adding_loop:
  "coord s = Adding rest b \<Longrightarrow>
   exec cfg (replicate (length rest) Coord) s
     = Some (s\<lparr>jobs := snd (add_jobs_loop (source cfg) (target cfg) rest b (jobs s)),
               enqueued := enqueued s
                 @ map (\<lambda>p. (path_join (source cfg) (snd p), path_join (target cfg) (snd p))) rest,
               coord := Adding [] (fst (add_jobs_loop (source cfg) (target cfg) rest b (jobs s)))\<rparr>)"
proof (induction rest arbitrary: s b)
  case Nil
  then show ?case by simp
next
  case (Cons p rest)
  obtain i nm where p: "p = (i, nm)" by (cases p)
  let ?s1 = "s\<lparr>jobs := add_job (source cfg) (target cfg) nm (jobs s),
               enqueued := enqueued s @ [(path_join (source cfg) nm, path_join (target cfg) nm)],
               coord := Adding rest (Some i)\<rparr>"
  have 1: "step cfg Coord s = Some ?s1" using Cons.prems p by (simp add: step_def)
  have "coord ?s1 = Adding rest (Some i)" by simp
  from Cons.IH [OF this] show ?case using 1 p by simp
qed

text \<open>
  C8. The claim fails on an empty directory: there \<open>add_jobs\<close> puts nothing and does not
  return the count 0 but raises \<^verbatim>\<open>UnboundLocalError\<close>. (On a directory with entries
  it returns their number and puts one job for each, as \<open>add_jobs_counts_entries\<close>
  shows.)
\<close>

theorem add_jobs_empty_listing:
  "add_jobs (\<lambda>p. Inr []) src tgt q = (Inl UnboundLocalError, q)"
  by (simp add: add_jobs_def)

lemma empty_listing_step:
  assumes l: "listdir cfg (source cfg) = Inr []"
    and c: "(\<exists>k. coord s = Creating k) \<or> coord s = Adding [] None \<or> (\<exists>e. coord s = Raised e)"
    and st: "step cfg ev s = Some s'"
  shows "(\<exists>k. coord s' = Creating k) \<or> coord s' = Adding [] None \<or> (\<exists>e. coord s' = Raised e)"
proof (cases ev)
  case Coord
  with st have 1: "coord_step cfg (coord s) s = Some s'" by (simp add: step_def)
  from c show ?thesis
  proof (elim disjE exE)
    fix k assume "coord s = Creating k"
    then show ?thesis using 1 l by (cases k) auto
  next
    assume "coord s = Adding [] None"
    then show ?thesis using 1 by auto
  next
    fix e assume "coord s = Raised e"
    then show ?thesis using 1 by simp
  qed
next
  case (Work i)
  with st have "worker_step cfg i (workers s ! i) s = Some s'"
    by (simp add: step_def split: if_splits)
  from worker_step_frame(1) [OF this] c show ?thesis by simp
next
  case (Flush i)
  with st have "flush_step i s = Some s'" by (simp add: step_def)
  from flush_step_frame(6) [OF this] c show ?thesis by simp
next
  case Interrupt
  with st have 1: "interrupt_step (coord s) s = Some s'" by (simp add: step_def)
  from c show ?thesis using 1 by (elim disjE exE) auto
qed

lemma empty_listing_exec:
  assumes l: "listdir cfg (source cfg) = Inr []"
  shows "exec cfg evs s = Some s' \<Longrightarrow>
    (\<exists>k. coord s = Creating k) \<or> coord s = Adding [] None \<or> (\<exists>e. coord s = Raised e) \<Longrightarrow>
    (\<exists>k. coord s' = Creating k) \<or> coord s' = Adding [] None \<or> (\<exists>e. coord s' = Raised e)"
proof (induction evs arbitrary: s)
  case Nil
  then show ?case by simp
next
  case (Cons ev evs)
  from Cons.prems(1) obtain s1 where 1: "step cfg ev s = Some s1" and 2: "exec cfg evs s1 = Some s'"
    unfolding exec_Cons_Some by blast
  from empty_listing_step [OF l Cons.prems(2) 1] Cons.IH [OF 2] show ?case by blast
qed

text \<open>
  C10. When the listing of the source directory is empty, \<open>add_jobs\<close> raises
  \<^verbatim>\<open>UnboundLocalError\<close> and leaves the queue as it was; in every schedule the
  coordinator is then still starting processes, at the end of the empty loop, or has
  raised: it never reaches \<^verbatim>\<open>jobs.join()\<close>, the drain loop or a returned Summary; and
  left to run, it ends by raising \<^verbatim>\<open>UnboundLocalError\<close>.
\<close>

theorem empty_directory_raises_before_join:
  assumes "listdir cfg (source cfg) = Inr []"
  shows "add_jobs (listdir cfg) (source cfg) (target cfg) q = (Inl UnboundLocalError, q)
    \<and> (\<forall>s. reachable cfg s \<longrightarrow>
          (\<exists>k. coord s = Creating k) \<or> coord s = Adding [] None \<or> (\<exists>e. coord s = Raised e))
    \<and> exec cfg (replicate (nat (concurrency cfg)) Coord @ [Coord, Coord]) (scale_start cfg fs)
        = Some ((scale_start cfg fs)\<lparr>workers := replicate (nat (concurrency cfg)) Waiting,
                                     buffers := replicate (nat (concurrency cfg)) [],
                                     coord := Raised UnboundLocalError\<rparr>)"
proof (intro conjI allI impI)
  show "add_jobs (listdir cfg) (source cfg) (target cfg) q = (Inl UnboundLocalError, q)"
    using assms by (simp add: add_jobs_def)
next
  fix s :: "'b state"
  assume "reachable cfg s"
  then obtain fs0 evs where e: "exec cfg evs (scale_start cfg fs0) = Some s"
    unfolding reachable_def by blast
  have "\<exists>k. coord (scale_start cfg fs0) = Creating k" by (simp add: scale_start_def)
  then show "(\<exists>k. coord s = Creating k) \<or> coord s = Adding [] None \<or> (\<exists>e. coord s = Raised e)"
    using empty_listing_exec [OF assms e] by blast
next
  show "exec cfg (replicate (nat (concurrency cfg)) Coord @ [Coord, Coord]) (scale_start cfg fs)
        = Some ((scale_start cfg fs)\<lparr>workers := replicate (nat (concurrency cfg)) Waiting,
                                     buffers := replicate (nat (concurrency cfg)) [],
                                     coord := Raised UnboundLocalError\<rparr>)"
    using assms by (simp add: exec_append pool_is_started step_def)
qed

theorem empty_directory_raises_before_join_witness:
  "listdir (demo_setting [] 2) (source (demo_setting [] 2)) = Inr []
   \<and> add_jobs (listdir (demo_setting [] 2)) ''/s'' ''/t'' \<lparr>items = [], unfinished = 0\<rparr>
       = (Inl UnboundLocalError, \<lparr>items = [], unfinished = 0\<rparr>)
   \<and> map_option coord (exec (demo_setting [] 2) [Coord, Coord, Coord, Coord]
        (scale_start (demo_setting [] 2) demo_files)) = Some (Raised UnboundLocalError)"
proof -
  have l: "listdir (demo_setting [] 2) (source (demo_setting [] 2)) = Inr []"
    by (simp add: demo_setting_def)
  have n: "replicate (nat (concurrency (demo_setting [] 2))) Coord @ [Coord, Coord]
             = [Coord, Coord, Coord, Coord]"
    by (simp add: demo_setting_def numeral_2_eq_2)
  have st: "source (demo_setting [] 2) = ''/s''" "target (demo_setting [] 2) = ''/t''"
    by (simp_all add: demo_setting_def)
  note t = empty_directory_raises_before_join [OF l, of "\<lparr>items = [], unfinished = 0\<rparr>" demo_files,
      unfolded n st]
  show ?thesis using l t by simp
qed

text \<open>
  C9, as stated, fails: a worker count of 0 passes \<open>handle_commandline\<close>, and
  \<^verbatim>\<open>scale\<close> then starts no worker, puts the job and blocks in \<^verbatim>\<open>jobs.join()\<close>;
  \<^verbatim>\<open>scale\<close> called with equal directories goes on to \<open>add_jobs\<close> all the same.
\<close>

theorem unchecked_worker_count_counterexample:
  "handle_commandline demo_os
      \<lparr>args_concurrency = 0, args_size = 400, args_smooth = False,
       args_source = ''/s'', args_target = ''/t''\<rparr>
     = Inr (400, False, ''/s'', ''/t'', 0)
   \<and> map_option coord (exec (demo_setting [''a''] 0) [Coord, Coord, Coord]
        (scale_start (demo_setting [''a''] 0) demo_files)) = Some (Joining 1)
   \<and> map_option workers (exec (demo_setting [''a''] 0) [Coord, Coord, Coord]
        (scale_start (demo_setting [''a''] 0) demo_files)) = Some []
   \<and> map_option coord (exec ((demo_setting [''a''] 1)\<lparr>target := ''/s''\<rparr>) [Coord, Coord, Coord]
        (scale_start ((demo_setting [''a''] 1)\<lparr>target := ''/s''\<rparr>) demo_files))
       = Some (Adding [] (Some 1))"
  by (simp add: handle_commandline_def demo_os_def demo_setting_def scale_start_def step_def
        add_job_def put_def)

text \<open>
  C9, amended. The only validation is in \<open>handle_commandline\<close>, before \<^verbatim>\<open>scale\<close> is
  called: it raises when the absolute source and target paths are equal, and whatever it
  returns has different directories and the worker count of the command line, unchecked.
  \<^verbatim>\<open>scale\<close> itself checks nothing: for any arguments it starts
  \<^verbatim>\<open>range(concurrency)\<close> workers (none for a count of zero or less).
\<close>

theorem validation_is_equal_directories_only:
  "(abspath os (args_source a) = abspath os (args_target a) \<longrightarrow> isl (handle_commandline os a))
   \<and> (\<forall>sz sm src tgt n. handle_commandline os a = Inr (sz, sm, src, tgt, n) \<longrightarrow>
         src \<noteq> tgt \<and> src = abspath os (args_source a) \<and> tgt = abspath os (args_target a)
         \<and> n = args_concurrency a)
   \<and> (abspath os (args_source a) \<noteq> abspath os (args_target a) \<and> exists os (args_target a) \<longrightarrow>
         handle_commandline os a
           = Inr (args_size a, args_smooth a, abspath os (args_source a),
                  abspath os (args_target a), args_concurrency a))
   \<and> exec cfg (replicate (nat (concurrency cfg)) Coord) (scale_start cfg fs)
       = Some ((scale_start cfg fs)\<lparr>workers := replicate (nat (concurrency cfg)) Waiting,
                                    buffers := replicate (nat (concurrency cfg)) [],
                                    coord := Creating 0\<rparr>)"
  by (auto simp add: handle_commandline_def Let_def pool_is_started split: option.splits if_splits)

theorem validation_is_equal_directories_only_witness:
  "isl (handle_commandline demo_os
          \<lparr>args_concurrency = 4, args_size = 400, args_smooth = False,
           args_source = ''/s'', args_target = ''/s''\<rparr>)
   \<and> handle_commandline demo_os
          \<lparr>args_concurrency = -3, args_size = 400, args_smooth = False,
           args_source = ''/s'', args_target = ''/t''\<rparr>
       = Inr (400, False, ''/s'', ''/t'', -3)
   \<and> exec (demo_setting [''a''] 2) [Coord, Coord] (scale_start (demo_setting [''a''] 2) demo_files)
       = Some ((scale_start (demo_setting [''a''] 2) demo_files)
                 \<lparr>workers := [Waiting, Waiting], buffers := [[], []], coord := Creating 0\<rparr>)"
proof -
  let ?same = "\<lparr>args_concurrency = 4, args_size = 400, args_smooth = False,
           args_source = ''/s'', args_target = ''/s''\<rparr>"
  let ?neg = "\<lparr>args_concurrency = -3, args_size = 400, args_smooth = False,
           args_source = ''/s'', args_target = ''/t''\<rparr>"
  let ?cfg = "demo_setting [''a''] 2"
  have 1: "abspath demo_os (args_source ?same) = abspath demo_os (args_target ?same)"
    by (simp add: demo_os_def)
  have 2: "abspath demo_os (args_source ?neg) \<noteq> abspath demo_os (args_target ?neg)
           \<and> exists demo_os (args_target ?neg)"
    by (simp add: demo_os_def)
  have 3: "replicate (nat (concurrency ?cfg)) x = [x, x]" for x :: "'a"
    by (simp add: demo_setting_def numeral_2_eq_2)
  from validation_is_equal_directories_only [of demo_os ?same ?cfg demo_files] 1
  have a: "isl (handle_commandline demo_os ?same)" by blast
  from validation_is_equal_directories_only [of demo_os ?neg ?cfg demo_files] 2
  have b: "handle_commandline demo_os ?neg
           = Inr (args_size ?neg, args_smooth ?neg, abspath demo_os (args_source ?neg),
                  abspath demo_os (args_target ?neg), args_concurrency ?neg)"
    and c: "exec ?cfg (replicate (nat (concurrency ?cfg)) Coord) (scale_start ?cfg demo_files)
       = Some ((scale_start ?cfg demo_files)
                 \<lparr>workers := replicate (nat (concurrency ?cfg)) Waiting,
                   buffers := replicate (nat (concurrency ?cfg)) [], coord := Creating 0\<rparr>)"
    by blast+
  have b': "handle_commandline demo_os ?neg = Inr (400, False, ''/s'', ''/t'', -3)"
    using b by (simp add: demo_os_def)
  show ?thesis using a b' c [unfolded 3] by (intro conjI)
qed

section \<open>The worker: errors and acknowledgments\<close>

lemma finishing_is_counted:
  assumes "inv s" and i: "i < length (workers s)" and w: "workers s ! i = Finishing j pending"
  shows "unfinished (jobs s) \<noteq> 0"
proof -
  from held_update [OF i, of finishing Waiting] w
  have "held finishing (workers s) = held finishing ((workers s)[i := Waiting]) + {#j#}"
    by simp
  moreover from assms(1) have "unfinished (jobs s) =
       length (items (jobs s)) + size (held processing (workers s))
         + size (held finishing (workers s))"
    by (simp add: inv_defs)
  ultimately show ?thesis by simp
qed

lemma finishing_step:
  assumes "inv s" and i: "i < length (workers s)" and w: "workers s ! i = Finishing j pending"
  shows "step cfg (Work i) s =
           Some (s\<lparr>jobs := (jobs s)\<lparr>unfinished := unfinished (jobs s) - 1\<rparr>,
                   acked := acked s @ [j],
                   workers := (workers s)[i := (case pending of None \<Rightarrow> Waiting
                                                  | Some e \<Rightarrow> Crashed e)]\<rparr>)"
  using finishing_is_counted [OF assms] i w by (simp add: step_def task_done_def)





lemma held_empty:
  "(\<forall>i < length ws. f (ws ! i) = []) \<Longrightarrow> held f ws = {#}"
  by (auto simp add: held_def in_set_conv_nth)

lemma processing_step:
  assumes i: "i < length (workers s)" and w: "workers s ! i = Processing j"
  shows "\<exists>s' pending. step cfg (Work i) s = Some s'
           \<and> workers s' = (workers s)[i := Finishing j pending]
           \<and> acked s' = acked s \<and> jobs s' = jobs s"
proof -
  obtain pending s1 where a: "attempt cfg i j s = (pending, s1)"
    by (cases "attempt cfg i j s")
  have "step cfg (Work i) s = Some (s1\<lparr>workers := (workers s1)[i := Finishing j pending]\<rparr>)"
    using i w a by (simp add: step_def)
  then show ?thesis using attempt_frame [OF a]
    by (intro exI [of _ "s1\<lparr>workers := (workers s1)[i := Finishing j pending]\<rparr>"]
          exI [of _ pending]) simp
qed

lemma acknowledged_by_holder:
  assumes "step cfg ev s = Some s'"
  shows "(acked s' = acked s \<and> unfinished (jobs s) \<le> unfinished (jobs s'))
         \<or> (\<exists>i j pending. ev = Work i \<and> i < length (workers s)
               \<and> workers s ! i = Finishing j pending \<and> acked s' = acked s @ [j]
               \<and> Suc (unfinished (jobs s')) = unfinished (jobs s))"
proof (cases ev)
  case Coord
  with assms have "coord_step cfg (coord s) s = Some s'" by (simp add: step_def)
  from coord_step_frame(2) [OF this] coord_step_count [OF this] show ?thesis by simp
next
  case (Work i)
  with assms have i: "i < length (workers s)"
    and st: "worker_step cfg i (workers s ! i) s = Some s'"
    by (simp_all add: step_def split: if_splits)
  show ?thesis
  proof (cases "workers s ! i")
    case Waiting
    then show ?thesis using st by (auto simp add: get_def split: list.splits)
  next
    case (Processing j)
    obtain pending s1 where a: "attempt cfg i j s = (pending, s1)"
      by (cases "attempt cfg i j s")
    then show ?thesis using st Processing attempt_frame(1,5) [OF a] by auto
  next
    case (Finishing j pending)
    then show ?thesis using st i Work by (auto simp add: task_done_def split: if_splits)
  next
    case (Crashed e)
    then show ?thesis using st by simp
  qed
next
  case (Flush i)
  with assms have "flush_step i s = Some s'" by (simp add: step_def)
  from flush_step_frame(2,5) [OF this] show ?thesis by simp
next
  case Interrupt
  with assms have "interrupt_step (coord s) s = Some s'" by (simp add: step_def)
  from interrupt_step_frame(2,5) [OF this] show ?thesis by simp
qed

text \<open>A run in which no \<^verbatim>\<open>jobs.get()\<close> raises is a schedule of events.\<close>

lemma run_Do: "run cfg (map Do evs) s = exec cfg evs s"
  by (induction evs arbitrary: s) (simp_all add: act_def split: option.splits)

lemma all_Do:
  "\<forall>i e. Get_raises i e \<notin> set as \<Longrightarrow> \<exists>evs. as = map Do evs"
proof (induction as)
  case Nil
  then show ?case by simp
next
  case (Cons a as)
  from Cons.prems have "\<forall>i e. Get_raises i e \<notin> set as" by simp
  from Cons.IH [OF this] obtain evs where evs: "as = map Do evs" by blast
  show ?case
  proof (cases a)
    case (Do ev)
    with evs have "a # as = map Do (ev # evs)" by simp
    then show ?thesis by (rule exI)
  next
    case (Get_raises i e)
    then have "Get_raises i e \<in> set (a # as)" by simp
    with Cons.prems show ?thesis by blast
  qed
qed

lemma run_without_get_raises:
  assumes "run cfg as (scale_start cfg fs) = Some s"
    and "\<forall>i e. Get_raises i e \<notin> set as"
  shows "reachable cfg s"
proof -
  from all_Do [OF assms(2)] obtain evs where "as = map Do evs" by blast
  with assms(1) have "exec cfg evs (scale_start cfg fs) = Some s" by (simp add: run_Do)
  then show ?thesis unfolding reachable_def by blast
qed

lemma quiescent_all_acknowledged:
  assumes "inv s" and idle: "\<forall>i < length (workers s). step cfg (Work i) s = None"
    and alive: "\<exists>i < length (workers s). workers s ! i = Waiting"
  shows "mset (acked s) = mset (enqueued s)"
proof -
  have no_p: "processing (workers s ! i) = []" if "i < length (workers s)" for i
  proof (cases "workers s ! i")
    case (Processing j)
    from processing_step [OF that Processing, of cfg] idle that show ?thesis by auto
  qed simp_all
  have no_f: "finishing (workers s ! i) = []" if "i < length (workers s)" for i
  proof (cases "workers s ! i")
    case (Finishing j pending)
    from finishing_step [OF assms(1) that Finishing, of cfg] idle that show ?thesis by auto
  qed simp_all
  from alive obtain i where i: "i < length (workers s)" and w: "workers s ! i = Waiting" by blast
  from idle i have "step cfg (Work i) s = None" by simp
  then have it: "items (jobs s) = []" using i w
    by (auto simp add: step_def get_def split: list.splits)
  have p: "held processing (workers s) = {#}" using no_p by (intro held_empty) simp
  have f: "held finishing (workers s) = {#}" using no_f by (intro held_empty) simp
  from assms(1) show ?thesis by (simp add: inv_defs p f it)
qed

text \<open>
  C2, as stated, fails. With the bound 0 the first job of two makes \<open>scale_one\<close> raise
  \<^verbatim>\<open>ZeroDivisionError\<close> (line 120), which the worker does not catch: it acknowledges
  that job and ends. The second job stays in the queue with no worker left; no process
  can act, the coordinator is blocked in \<^verbatim>\<open>jobs.join()\<close>, and that job is never
  acknowledged. And when \<^verbatim>\<open>jobs.get()\<close> itself raises in the second of two waiting
  workers, \<^verbatim>\<open>task_done\<close> counts down although no job was retrieved: the count is 0
  while the only job is still in the queue, acknowledged by nobody.
\<close>

theorem enqueued_job_never_acknowledged_counterexample:
  "exec ((demo_setting [''a'', ''b''] 1)\<lparr>bound := 0\<rparr>)
      [Coord, Coord, Coord, Coord, Coord, Work 0, Work 0, Work 0]
      (scale_start ((demo_setting [''a'', ''b''] 1)\<lparr>bound := 0\<rparr>) demo_files)
     = Some \<lparr>files = demo_files,
             jobs = \<lparr>items = [(''/s/b'', ''/t/b'')], unfinished = 1\<rparr>,
             results = [], buffers = [[]],
             workers = [Crashed ZeroDivisionError], coord = Joining 2, reports = [],
             enqueued = [(''/s/a'', ''/t/a''), (''/s/b'', ''/t/b'')],
             outcomes = [((''/s/a'', ''/t/a''), Inl ZeroDivisionError)],
             acked = [(''/s/a'', ''/t/a'')], drained = []\<rparr>
   \<and> exec ((demo_setting [''a'', ''b''] 1)\<lparr>bound := 0\<rparr>)
      [Coord, Coord, Coord, Coord, Coord, Work 0, Work 0, Work 0, Work 0]
      (scale_start ((demo_setting [''a'', ''b''] 1)\<lparr>bound := 0\<rparr>) demo_files) = None
   \<and> exec ((demo_setting [''a'', ''b''] 1)\<lparr>bound := 0\<rparr>)
      [Coord, Coord, Coord, Coord, Coord, Work 0, Work 0, Work 0, Flush 0]
      (scale_start ((demo_setting [''a'', ''b''] 1)\<lparr>bound := 0\<rparr>) demo_files) = None
   \<and> exec ((demo_setting [''a'', ''b''] 1)\<lparr>bound := 0\<rparr>)
      [Coord, Coord, Coord, Coord, Coord, Work 0, Work 0, Work 0, Coord]
      (scale_start ((demo_setting [''a'', ''b''] 1)\<lparr>bound := 0\<rparr>) demo_files) = None
   \<and> run (demo_setting [''b''] 2)
      [Do Coord, Do Coord, Do Coord, Do Coord, Do Coord, Get_raises 1 KeyboardInterrupt]
      (scale_start (demo_setting [''b''] 2) demo_files)
     = Some \<lparr>files = demo_files,
             jobs = \<lparr>items = [(''/s/b'', ''/t/b'')], unfinished = 0\<rparr>,
             results = [], buffers = [[], []],
             workers = [Waiting, Crashed KeyboardInterrupt], coord = Joining 1, reports = [],
             enqueued = [(''/s/b'', ''/t/b'')], outcomes = [], acked = [], drained = []\<rparr>"
  by (simp add: demo_run subsample_stride_def truediv_def act_def get_raises_def)

text \<open>
  C2, amended, for the runs in which no \<^verbatim>\<open>jobs.get()\<close> raises. In every state of
  such a run each job put on the queue is in exactly one place: waiting in the queue, held
  by a worker before or after its inner \<^verbatim>\<open>try\<close>, or acknowledged once; the count of
  unfinished tasks is the number of jobs put minus the number acknowledged. A worker that
  holds a job can always act: the inner \<^verbatim>\<open>try\<close> ends in the \<^verbatim>\<open>finally\<close> clause
  whatever \<open>scale_one\<close> did, and there \<^verbatim>\<open>task_done\<close> succeeds and acknowledges
  that job; the worker then goes back to \<^verbatim>\<open>jobs.get()\<close>, or ends when an exception
  is pending. Of all actions possible in that state, only such a step of a worker in its
  \<^verbatim>\<open>finally\<close> clause (and a \<^verbatim>\<open>jobs.get()\<close> that raises, of which nothing is
  said) acknowledges anything or lowers the count. A worker that has ended does nothing.
  When no worker can act and one is still waiting in \<^verbatim>\<open>jobs.get()\<close>, every job put
  has been acknowledged.
\<close>

theorem retrieved_job_is_acknowledged_exactly_once:
  assumes "run cfg as (scale_start cfg fs) = Some s"
    and "\<forall>i e. Get_raises i e \<notin> set as"
  shows "mset (enqueued s)
           = mset (items (jobs s)) + held processing (workers s) + held finishing (workers s)
             + mset (acked s)
    \<and> unfinished (jobs s) + length (acked s) = length (enqueued s)
    \<and> (\<forall>i j. i < length (workers s) \<and> workers s ! i = Processing j \<longrightarrow>
          (\<exists>s' pending. step cfg (Work i) s = Some s'
              \<and> workers s' = (workers s)[i := Finishing j pending]
              \<and> acked s' = acked s \<and> jobs s' = jobs s))
    \<and> (\<forall>i j pending. i < length (workers s) \<and> workers s ! i = Finishing j pending \<longrightarrow>
          (\<exists>s'. step cfg (Work i) s = Some s' \<and> acked s' = acked s @ [j]
              \<and> Suc (unfinished (jobs s')) = unfinished (jobs s)
              \<and> workers s' = (workers s)[i := (case pending of None \<Rightarrow> Waiting
                                                   | Some e \<Rightarrow> Crashed e)]))
    \<and> (\<forall>a s'. act cfg a s = Some s' \<longrightarrow>
          (acked s' = acked s \<and> unfinished (jobs s) \<le> unfinished (jobs s'))
          \<or> (\<exists>i j pending. a = Do (Work i) \<and> i < length (workers s)
                \<and> workers s ! i = Finishing j pending \<and> acked s' = acked s @ [j]
                \<and> Suc (unfinished (jobs s')) = unfinished (jobs s))
          \<or> (\<exists>i e. a = Get_raises i e))
    \<and> (\<forall>i e. i < length (workers s) \<and> workers s ! i = Crashed e \<longrightarrow>
          step cfg (Work i) s = None)
    \<and> ((\<forall>i < length (workers s). step cfg (Work i) s = None)
         \<and> (\<exists>i < length (workers s). workers s ! i = Waiting)
        \<longrightarrow> mset (acked s) = mset (enqueued s))"
proof -
  have "reachable cfg s" using assms by (rule run_without_get_raises)
  then have inv: "inv s" by (rule inv_reachable)
  then have J: "mset (enqueued s) =
       mset (items (jobs s)) + held processing (workers s) + mset (map fst (outcomes s))"
    and A: "mset (map fst (outcomes s)) = mset (acked s) + held finishing (workers s)"
    and C: "unfinished (jobs s) =
       length (items (jobs s)) + size (held processing (workers s))
         + size (held finishing (workers s))"
    by (simp_all add: inv_defs)
  have 1: "mset (enqueued s)
           = mset (items (jobs s)) + held processing (workers s) + held finishing (workers s)
             + mset (acked s)"
    using J A by simp
  have "size (mset (enqueued s))
           = size (mset (items (jobs s)) + held processing (workers s)
                     + held finishing (workers s) + mset (acked s))"
    using 1 by simp
  then have 2: "unfinished (jobs s) + length (acked s) = length (enqueued s)"
    using C by simp
  have 3: "\<exists>s' pending. step cfg (Work i) s = Some s'
              \<and> workers s' = (workers s)[i := Finishing j pending]
              \<and> acked s' = acked s \<and> jobs s' = jobs s"
    if "i < length (workers s) \<and> workers s ! i = Processing j" for i j
    using that processing_step [of i s j cfg] by blast
  have 4: "\<exists>s'. step cfg (Work i) s = Some s' \<and> acked s' = acked s @ [j]
              \<and> Suc (unfinished (jobs s')) = unfinished (jobs s)
              \<and> workers s' = (workers s)[i := (case pending of None \<Rightarrow> Waiting
                                                   | Some e \<Rightarrow> Crashed e)]"
    if "i < length (workers s) \<and> workers s ! i = Finishing j pending" for i j pending
  proof -
    from that have i: "i < length (workers s)" and w: "workers s ! i = Finishing j pending"
      by simp_all
    from finishing_is_counted [OF inv i w] finishing_step [OF inv i w, of cfg]
    show ?thesis by simp
  qed
  have 5: "(acked s' = acked s \<and> unfinished (jobs s) \<le> unfinished (jobs s'))
          \<or> (\<exists>i j pending. a = Do (Work i) \<and> i < length (workers s)
                \<and> workers s ! i = Finishing j pending \<and> acked s' = acked s @ [j]
                \<and> Suc (unfinished (jobs s')) = unfinished (jobs s))
          \<or> (\<exists>i e. a = Get_raises i e)"
    if "act cfg a s = Some s'" for a s'
  proof (cases a)
    case (Do ev)
    with that have "step cfg ev s = Some s'" by (simp add: act_def)
    from acknowledged_by_holder [OF this] Do show ?thesis by blast
  next
    case (Get_raises i e)
    then show ?thesis by blast
  qed
  have 6: "step cfg (Work i) s = None"
    if "i < length (workers s) \<and> workers s ! i = Crashed e" for i e
    using that by (simp add: step_def)
  have 7: "mset (acked s) = mset (enqueued s)"
    if "(\<forall>i < length (workers s). step cfg (Work i) s = None)
         \<and> (\<exists>i < length (workers s). workers s ! i = Waiting)"
    using that quiescent_all_acknowledged [OF inv, of cfg] by blast
  show ?thesis
    apply (intro conjI allI impI)
          apply (rule 1)
         apply (rule 2)
        apply (erule 3)
       apply (erule 4)
      apply (erule 5)
     apply (erule 6)
    apply (erule 7)
    done
qed

theorem retrieved_job_is_acknowledged_exactly_once_witness:
  "\<exists>s. run (demo_setting [''a'', ''c''] 1)
          [Do Coord, Do Coord, Do Coord, Do Coord, Do (Work 0), Do (Work 0)]
          (scale_start (demo_setting [''a'', ''c''] 1) demo_files) = Some s
     \<and> (\<forall>i e. Get_raises i e
           \<notin> set [Do Coord, Do Coord, Do Coord, Do Coord, Do (Work 0), Do (Work 0)])
     \<and> workers s ! 0 = Finishing (''/s/a'', ''/t/a'') None
     \<and> unfinished (jobs s) + length (acked s) = length (enqueued s)
     \<and> (\<exists>s'. step (demo_setting [''a'', ''c''] 1) (Work 0) s = Some s'
            \<and> acked s' = acked s @ [(''/s/a'', ''/t/a'')]
            \<and> Suc (unfinished (jobs s')) = unfinished (jobs s)
            \<and> workers s' = [Waiting])"
proof -
  let ?cfg = "demo_setting [''a'', ''c''] 1"
  let ?as = "[Do Coord, Do Coord, Do Coord, Do Coord, Do (Work 0), Do (Work 0)]"
  let ?j = "(''/s/a'', ''/t/a'')"
  let ?s = "\<lparr>files = [(''/t/a'', 400 :: int, 200 :: int), (''/s/a'', 800, 400),
                        (''/s/b'', 300, 200)],
     jobs = \<lparr>items = [(''/s/c'', ''/t/c'')], unfinished = 2\<rparr>,
     results = [], buffers = [[Result 0 1 ''/t/a'']],
     workers = [Finishing ?j None], coord = Adding [] (Some 2),
     reports = [(''scaled a'', False)],
     enqueued = [?j, (''/s/c'', ''/t/c'')],
     outcomes = [(?j, Inr (Result 0 1 ''/t/a''))],
     acked = [], drained = []\<rparr>"
  have r: "run ?cfg ?as (scale_start ?cfg demo_files) = Some ?s"
    by (simp add: demo_run act_def)
  have n: "\<forall>i e. Get_raises i e \<notin> set ?as" by simp
  note t = retrieved_job_is_acknowledged_exactly_once [OF r n]
  have 1: "unfinished (jobs ?s) + length (acked ?s) = length (enqueued ?s)"
    by (rule t [THEN conjunct2, THEN conjunct1])
  have 2: "\<forall>i j pending. i < length (workers ?s) \<and> workers ?s ! i = Finishing j pending \<longrightarrow>
          (\<exists>s'. step ?cfg (Work i) ?s = Some s' \<and> acked s' = acked ?s @ [j]
              \<and> Suc (unfinished (jobs s')) = unfinished (jobs ?s)
              \<and> workers s' = (workers ?s)[i := (case pending of None \<Rightarrow> Waiting
                                                   | Some e \<Rightarrow> Crashed e)])"
    by (rule t [THEN conjunct2, THEN conjunct2, THEN conjunct2, THEN conjunct1])
  have "0 < length (workers ?s) \<and> workers ?s ! 0 = Finishing ?j None" by simp
  with 2 obtain s' where 3: "step ?cfg (Work 0) ?s = Some s'" and 4: "acked s' = acked ?s @ [?j]"
    and 5: "Suc (unfinished (jobs s')) = unfinished (jobs ?s)"
    and 6: "workers s' = (workers ?s)[0 := (case None :: error option of None \<Rightarrow> Waiting
                                                   | Some e \<Rightarrow> Crashed e)]"
    by blast
  have 7: "workers s' = [Waiting]" using 6 by simp
  show ?thesis
    apply (rule exI [of _ ?s])
    apply (intro conjI)
        apply (rule r)
       apply (rule n)
      apply simp
     apply (rule 1)
    apply (rule exI [of _ s'])
    apply (intro conjI)
       apply (rule 3)
      apply (rule 4)
     apply (rule 5)
    apply (rule 7)
    done
qed

section \<open>The Summary\<close>

lemma unit_results_sum:
  "\<forall>r \<in> set rs. (result.copied r = 1 \<and> result.scaled r = 0)
                     \<or> (result.copied r = 0 \<and> result.scaled r = 1) \<Longrightarrow>
   sum_list (map result.copied rs) + sum_list (map result.scaled rs) = int (length rs)
   \<and> 0 \<le> sum_list (map result.copied rs) \<and> 0 \<le> sum_list (map result.scaled rs)"
  by (induction rs) auto

lemma results_put:
  assumes "inv s"
  shows "length (emitted (outcomes s))
           = length (drained s) + length (results s) + length (concat (buffers s))"
    and "set (drained s) \<subseteq> set (emitted (outcomes s))"
    and "\<forall>r \<in> set (drained s). (result.copied r = 1 \<and> result.scaled r = 0)
                                   \<or> (result.copied r = 0 \<and> result.scaled r = 1)"
proof -
  from assms have "mset (emitted (outcomes s))
       = mset (drained s) + mset (results s) + mset (concat (buffers s))"
    and U: "\<forall>r \<in> set (emitted (outcomes s)).
             (result.copied r = 1 \<and> result.scaled r = 0)
             \<or> (result.copied r = 0 \<and> result.scaled r = 1)"
    by (simp_all add: inv_defs)
  then have E: "mset (emitted (outcomes s))
       = mset (drained s @ results s @ concat (buffers s))" by simp
  from mset_eq_length [OF E]
  show "length (emitted (outcomes s))
           = length (drained s) + length (results s) + length (concat (buffers s))"
    by simp
  from mset_eq_setD [OF E] show sub: "set (drained s) \<subseteq> set (emitted (outcomes s))" by simp
  from sub U show "\<forall>r \<in> set (drained s). (result.copied r = 1 \<and> result.scaled r = 0)
                                   \<or> (result.copied r = 0 \<and> result.scaled r = 1)"
    by blast
qed

text \<open>
  What does hold of every Summary that \<^verbatim>\<open>scale\<close> returns, with \<open>difference\<close> the
  skipped count that \<^verbatim>\<open>summarize\<close> computes: todo = copied + scaled + skipped and
  skipped is not negative; copied and scaled are the sums over the drained results and
  add up to their number; todo is the number of jobs put; and skipped is the number of
  jobs without a drained result: those that raised, those still waiting or in work, and
  those whose result was put but was still in a worker's buffer or in the pipe when the
  drain loop ended. Without cancellation no job is waiting or in work.
\<close>

lemma summary_accounting:
  assumes "reachable cfg s" and "coord s = Returned sm"
  shows "summary.todo sm = summary.copied sm + summary.scaled sm + difference sm"
    and "0 \<le> difference sm"
    and "summary.copied sm = sum_list (map result.copied (drained s))"
    and "summary.scaled sm = sum_list (map result.scaled (drained s))"
    and "summary.copied sm + summary.scaled sm = int (length (drained s))"
    and "summary.todo sm = int (length (enqueued s))"
    and "difference sm = int (length (items (jobs s)) + size (held processing (workers s))
                             + length (failed (outcomes s))
                             + length (results s) + length (concat (buffers s)))"
    and "\<not> summary.canceled sm \<Longrightarrow>
           difference sm = int (length (failed (outcomes s))
                                  + length (results s) + length (concat (buffers s)))"
proof -
  have inv: "inv s" using assms(1) by (rule inv_reachable)
  then have J: "mset (enqueued s) =
       mset (items (jobs s)) + held processing (workers s) + mset (map fst (outcomes s))"
    and C: "unfinished (jobs s) =
       length (items (jobs s)) + size (held processing (workers s))
         + size (held finishing (workers s))"
    by (simp_all add: inv_defs)
  note P = results_put [OF inv]
  have "inv_coord (coord s) s" using inv by (simp add: inv_def)
  then have K: "inv_coord (Returned sm) s" unfolding assms(2) .
  from K show t: "summary.todo sm = int (length (enqueued s))"
    and c: "summary.copied sm = sum_list (map result.copied (drained s))"
    and k: "summary.scaled sm = sum_list (map result.scaled (drained s))"
    by simp_all
  from K have n: "\<not> summary.canceled sm \<longrightarrow> unfinished (jobs s) = 0" by simp
  from unit_results_sum [OF P(3)] c k
  show d: "summary.copied sm + summary.scaled sm = int (length (drained s))" by simp
  have "size (mset (enqueued s)) =
       size (mset (items (jobs s)) + held processing (workers s) + mset (map fst (outcomes s)))"
    using J by simp
  then have "length (enqueued s) =
       length (items (jobs s)) + size (held processing (workers s)) + length (outcomes s)"
    by simp
  moreover have "length (outcomes s) = length (emitted (outcomes s)) + length (failed (outcomes s))"
    by (rule length_outcomes)
  ultimately have "length (enqueued s) = length (drained s) + (length (items (jobs s))
       + size (held processing (workers s)) + length (failed (outcomes s))
       + length (results s) + length (concat (buffers s)))"
    using P(1) by simp
  then show sk: "difference sm = int (length (items (jobs s)) + size (held processing (workers s))
                             + length (failed (outcomes s))
                             + length (results s) + length (concat (buffers s)))"
    unfolding difference_def using t d by simp
  show "difference sm = int (length (failed (outcomes s))
                                  + length (results s) + length (concat (buffers s)))"
    if "\<not> summary.canceled sm"
  proof -
    from that n have "unfinished (jobs s) = 0" by simp
    with C sk show ?thesis by simp
  qed
  show "summary.todo sm = summary.copied sm + summary.scaled sm + difference sm"
    by (simp add: difference_def)
  show "0 \<le> difference sm" unfolding sk by simp
qed

text \<open>
  C1. The claim fails on the code. One image that fits the bound, one worker: the worker
  copies it, reports it, puts its Result and acknowledges the job; \<^verbatim>\<open>jobs.join()\<close>
  returns; the drain loop finds \<^verbatim>\<open>results.empty()\<close> true, because the Result is
  still in the worker's buffer, and \<^verbatim>\<open>scale\<close> returns \<open>Summary 1 0 0 False\<close>. The
  batch was not canceled, the job raised nothing and produced a Result, and yet it is
  counted as skipped: skipped = 1, copied = 0. The comment of line 71 (``Safe because
  all jobs have finished'') says that the loop is meant to see every Result.
\<close>

theorem succeeded_job_is_counted_as_skipped:
  "exec (demo_setting [''b''] 1)
      [Coord, Coord, Coord, Coord, Work 0, Work 0, Work 0, Coord, Coord]
      (scale_start (demo_setting [''b''] 1) demo_files)
     = Some \<lparr>files = [(''/t/b'', 300, 200), (''/s/a'', 800, 400), (''/s/b'', 300, 200)],
             jobs = \<lparr>items = [], unfinished = 0\<rparr>,
             results = [], buffers = [[Result 1 0 ''/t/b'']],
             workers = [Waiting], coord = Returned (Summary 1 0 0 False),
             reports = [(''copied b'', False)],
             enqueued = [(''/s/b'', ''/t/b'')],
             outcomes = [((''/s/b'', ''/t/b''), Inr (Result 1 0 ''/t/b''))],
             acked = [(''/s/b'', ''/t/b'')], drained = []\<rparr>
   \<and> failed [((''/s/b'', ''/t/b''), Inr (Result 1 0 ''/t/b''))] = []
   \<and> difference (Summary 1 0 0 False) = 1
   \<and> summary.copied (Summary 1 0 0 False) = 0"
  by (simp add: demo_run difference_def)

section \<open>Cancellation\<close>

lemma prefix_unit_sums:
  assumes "prefix xs ys"
    and "\<forall>r \<in> set ys. (result.copied r = 1 \<and> result.scaled r = 0)
                           \<or> (result.copied r = 0 \<and> result.scaled r = 1)"
  shows "sum_list (map result.copied xs) \<le> sum_list (map result.copied ys)
         \<and> sum_list (map result.scaled xs) \<le> sum_list (map result.scaled ys)"
proof -
  from assms(1) obtain zs where ys: "ys = xs @ zs" by (auto simp add: prefix_def)
  with assms(2) have "\<forall>r \<in> set zs. (result.copied r = 1 \<and> result.scaled r = 0)
                           \<or> (result.copied r = 0 \<and> result.scaled r = 1)" by simp
  from unit_results_sum [OF this] show ?thesis unfolding ys by simp
qed

lemma draining_can_act:
  "coord s = Draining n c cp sc \<Longrightarrow> step cfg Coord s \<noteq> None"
  by (cases "results s") (simp_all add: step_def)

text \<open>
  C7, as stated, fails. One image, one worker: the worker has copied the image and its
  \<^verbatim>\<open>results.put(result)\<close> has returned, so the Result has been produced, when the
  interrupt reaches the coordinator in \<^verbatim>\<open>jobs.join()\<close>. The drain loop finds
  \<^verbatim>\<open>results.empty()\<close> true, because the Result is still in the worker's buffer, and
  the Summary counts nothing: \<open>Summary 1 0 0 True\<close>.
\<close>

theorem produced_result_missed_after_cancel_counterexample:
  "exec (demo_setting [''b''] 1) [Coord, Coord, Coord, Coord, Work 0, Work 0]
      (scale_start (demo_setting [''b''] 1) demo_files)
     = Some \<lparr>files = [(''/t/b'', 300, 200), (''/s/a'', 800, 400), (''/s/b'', 300, 200)],
             jobs = \<lparr>items = [], unfinished = 1\<rparr>,
             results = [], buffers = [[Result 1 0 ''/t/b'']],
             workers = [Finishing (''/s/b'', ''/t/b'') None], coord = Joining 1,
             reports = [(''copied b'', False)],
             enqueued = [(''/s/b'', ''/t/b'')],
             outcomes = [((''/s/b'', ''/t/b''), Inr (Result 1 0 ''/t/b''))],
             acked = [], drained = []\<rparr>
   \<and> exec (demo_setting [''b''] 1)
      [Coord, Coord, Coord, Coord, Work 0, Work 0, Interrupt, Coord]
      (scale_start (demo_setting [''b''] 1) demo_files)
     = Some \<lparr>files = [(''/t/b'', 300, 200), (''/s/a'', 800, 400), (''/s/b'', 300, 200)],
             jobs = \<lparr>items = [], unfinished = 1\<rparr>,
             results = [], buffers = [[Result 1 0 ''/t/b'']],
             workers = [Finishing (''/s/b'', ''/t/b'') None],
             coord = Returned (Summary 1 0 0 True),
             reports = [(''copied b'', False), (''canceling...'', False)],
             enqueued = [(''/s/b'', ''/t/b'')],
             outcomes = [((''/s/b'', ''/t/b''), Inr (Result 1 0 ''/t/b''))],
             acked = [], drained = []\<rparr>"
  by (simp add: demo_run)

text \<open>
  C7, amended. The coordinator is blocked in \<^verbatim>\<open>jobs.join()\<close> and the interrupt
  arrives: it reports \<^verbatim>\<open>canceling...\<close> and enters the drain loop with canceled set,
  nothing else changed. From then on, in every schedule without a further interrupt, it
  is in the drain loop and able to act, or has returned a Summary with that todo and
  canceled set: it never raises. Once it has acted more often than there were results
  in the pipe and in the buffers and jobs waiting or in work at the interrupt, it has
  returned. The returned Summary's counts are the sums over the drained results; these
  begin with all results that were in the pipe of the result queue when the interrupt
  arrived, and all of them are results that workers have put. (Results that were still
  in a worker's buffer at the interrupt may or may not be among them.)
\<close>

theorem cancellation_drains_what_reached_the_pipe:
  assumes "reachable cfg s" and "coord s = Joining n"
  shows "step cfg Interrupt s
           = Some (s\<lparr>reports := reports s @ [(''canceling...'', False)],
                     coord := Draining n True 0 0\<rparr>)
    \<and> (\<forall>evs t. Interrupt \<notin> set evs
          \<and> exec cfg (Interrupt # evs) s = Some t \<longrightarrow>
          ((\<exists>cp sc. coord t = Draining n True cp sc \<and> step cfg Coord t \<noteq> None)
             \<or> (\<exists>cp sc. coord t = Returned (Summary n cp sc True)))
          \<and> (backlog s < count_list evs Coord \<longrightarrow>
                (\<exists>cp sc. coord t = Returned (Summary n cp sc True)))
          \<and> (\<forall>sm. coord t = Returned sm \<longrightarrow>
                summary.canceled sm \<and> summary.todo sm = n
                \<and> prefix (results s) (drained t)
                \<and> set (drained t) \<subseteq> set (emitted (outcomes t))
                \<and> summary.copied sm = sum_list (map result.copied (drained t))
                \<and> summary.scaled sm = sum_list (map result.scaled (drained t))
                \<and> sum_list (map result.copied (results s)) \<le> summary.copied sm
                \<and> sum_list (map result.scaled (results s)) \<le> summary.scaled sm))"
proof -
  let ?s1 = "s\<lparr>reports := reports s @ [(''canceling...'', False)], coord := Draining n True 0 0\<rparr>"
  have inv: "inv s" using assms(1) by (rule inv_reachable)
  have st: "step cfg Interrupt s = Some ?s1" using assms(2) by (simp add: step_def)
  have inv1: "inv ?s1" using inv st by (rule inv_step)
  have d1: "coord ?s1 = Draining n True 0 0" by simp
  have b1: "backlog ?s1 = backlog s" by (simp add: backlog_def)
  have "inv_coord (coord s) s" using inv by (simp add: inv_def)
  then have "drained s = []" unfolding assms(2) by simp
  then have em: "drained ?s1 @ results ?s1 = results s" by simp
  have main: "((\<exists>cp sc. coord t = Draining n True cp sc \<and> step cfg Coord t \<noteq> None)
             \<or> (\<exists>cp sc. coord t = Returned (Summary n cp sc True)))
          \<and> (backlog s < count_list evs Coord \<longrightarrow>
                (\<exists>cp sc. coord t = Returned (Summary n cp sc True)))
          \<and> (\<forall>sm. coord t = Returned sm \<longrightarrow>
                summary.canceled sm \<and> summary.todo sm = n
                \<and> prefix (results s) (drained t)
                \<and> set (drained t) \<subseteq> set (emitted (outcomes t))
                \<and> summary.copied sm = sum_list (map result.copied (drained t))
                \<and> summary.scaled sm = sum_list (map result.scaled (drained t))
                \<and> sum_list (map result.copied (results s)) \<le> summary.copied sm
                \<and> sum_list (map result.scaled (results s)) \<le> summary.scaled sm)"
    if h: "Interrupt \<notin> set evs \<and> exec cfg (Interrupt # evs) s = Some t" for evs t
  proof -
    from h st have ni: "Interrupt \<notin> set evs" and ex: "exec cfg evs ?s1 = Some t" by simp_all
    have invt: "inv t" using inv1 ex by (rule inv_exec)
    from draining_exec [OF inv1 ex ni d1]
    have cases: "(\<exists>cp sc. coord t = Returned (Summary n cp sc True))
       \<or> (\<exists>cp sc. coord t = Draining n True cp sc
              \<and> count_list evs Coord + backlog t \<le> backlog s)"
      unfolding b1 .
    have a: "(\<exists>cp sc. coord t = Draining n True cp sc \<and> step cfg Coord t \<noteq> None)
             \<or> (\<exists>cp sc. coord t = Returned (Summary n cp sc True))"
      using cases draining_can_act [of t n True _ _ cfg] by blast
    have b: "\<exists>cp sc. coord t = Returned (Summary n cp sc True)"
      if "backlog s < count_list evs Coord"
      using cases that by auto
    have c: "summary.canceled sm \<and> summary.todo sm = n
                \<and> prefix (results s) (drained t)
                \<and> set (drained t) \<subseteq> set (emitted (outcomes t))
                \<and> summary.copied sm = sum_list (map result.copied (drained t))
                \<and> summary.scaled sm = sum_list (map result.scaled (drained t))
                \<and> sum_list (map result.copied (results s)) \<le> summary.copied sm
                \<and> sum_list (map result.scaled (results s)) \<le> summary.scaled sm"
      if r: "coord t = Returned sm" for sm
    proof -
      from cases r obtain cp sc where sm: "sm = Summary n cp sc True" by auto
      have "\<not> is_returned (coord ?s1)" by (simp add: is_returned_def)
      from drained_covers [OF ex this r]
      have p: "prefix (results s) (drained t)" unfolding em .
      have "inv_coord (coord t) t" using invt by (simp add: inv_def)
      then have k: "summary.copied sm = sum_list (map result.copied (drained t))"
        "summary.scaled sm = sum_list (map result.scaled (drained t))"
        unfolding r by simp_all
      note P = results_put [OF invt]
      from prefix_unit_sums [OF p P(3)] k p sm P(2) show ?thesis by simp
    qed
    from a b c show ?thesis by blast
  qed
  show ?thesis
    apply (rule conjI)
     apply (rule st)
    apply (rule allI, rule allI, rule impI)
    apply (erule main)
    done
qed

theorem cancellation_drains_what_reached_the_pipe_witness:
  "\<exists>s t. reachable (demo_setting [''a'', ''b''] 1) s \<and> coord s = Joining 2
     \<and> results s = [Result 0 1 ''/t/a'']
     \<and> exec (demo_setting [''a'', ''b''] 1)
          (Interrupt # [Coord, Work 0, Work 0, Work 0, Work 0, Flush 0, Coord, Coord]) s = Some t
     \<and> backlog s < count_list [Coord, Work 0, Work 0, Work 0, Work 0, Flush 0, Coord, Coord] Coord
     \<and> coord t = Returned (Summary 2 1 1 True)
     \<and> prefix (results s) (drained t)
     \<and> sum_list (map result.scaled (results s)) \<le> summary.scaled (Summary 2 1 1 True)"
proof -
  let ?cfg = "demo_setting [''a'', ''b''] 1"
  let ?evs = "[Coord, Work 0, Work 0, Work 0, Work 0, Flush 0, Coord, Coord]"
  let ?s = "\<lparr>files = [(''/t/a'', 400 :: int, 200 :: int), (''/s/a'', 800, 400),
                        (''/s/b'', 300, 200)],
     jobs = \<lparr>items = [(''/s/b'', ''/t/b'')], unfinished = 2\<rparr>,
     results = [Result 0 1 ''/t/a''], buffers = [[]],
     workers = [Finishing (''/s/a'', ''/t/a'') None], coord = Joining 2,
     reports = [(''scaled a'', False)],
     enqueued = [(''/s/a'', ''/t/a''), (''/s/b'', ''/t/b'')],
     outcomes = [((''/s/a'', ''/t/a''), Inr (Result 0 1 ''/t/a''))],
     acked = [], drained = []\<rparr>"
  let ?t = "\<lparr>files = [(''/t/b'', 300 :: int, 200 :: int), (''/t/a'', 400, 200),
                        (''/s/a'', 800, 400), (''/s/b'', 300, 200)],
     jobs = \<lparr>items = [], unfinished = 0\<rparr>, results = [], buffers = [[]],
     workers = [Waiting],
     coord = Returned (Summary 2 1 1 True),
     reports = [(''scaled a'', False), (''canceling...'', False), (''copied b'', False)],
     enqueued = [(''/s/a'', ''/t/a''), (''/s/b'', ''/t/b'')],
     outcomes = [((''/s/a'', ''/t/a''), Inr (Result 0 1 ''/t/a'')),
                 ((''/s/b'', ''/t/b''), Inr (Result 1 0 ''/t/b''))],
     acked = [(''/s/a'', ''/t/a''), (''/s/b'', ''/t/b'')],
     drained = [Result 0 1 ''/t/a'', Result 1 0 ''/t/b'']\<rparr>"
  have "exec ?cfg [Coord, Coord, Coord, Coord, Coord, Work 0, Work 0, Flush 0]
          (scale_start ?cfg demo_files) = Some ?s"
    by (simp add: demo_run)
  then have r: "reachable ?cfg ?s" unfolding reachable_def by blast
  have j: "coord ?s = Joining 2" by simp
  have e: "exec ?cfg (Interrupt # ?evs) ?s = Some ?t" by (simp add: demo_run)
  have b: "backlog ?s < count_list ?evs Coord" by (simp add: backlog_def held_def)
  have ni: "Interrupt \<notin> set ?evs" by simp
  note t = cancellation_drains_what_reached_the_pipe
      [OF r j, THEN conjunct2, rule_format, of ?evs ?t]
  from t ni e have 1: "\<forall>sm. coord ?t = Returned sm \<longrightarrow>
                summary.canceled sm \<and> summary.todo sm = 2
                \<and> prefix (results ?s) (drained ?t)
                \<and> set (drained ?t) \<subseteq> set (emitted (outcomes ?t))
                \<and> summary.copied sm = sum_list (map result.copied (drained ?t))
                \<and> summary.scaled sm = sum_list (map result.scaled (drained ?t))
                \<and> sum_list (map result.copied (results ?s)) \<le> summary.copied sm
                \<and> sum_list (map result.scaled (results ?s)) \<le> summary.scaled sm"
    by blast
  have c: "coord ?t = Returned (Summary 2 1 1 True)" by simp
  from 1 c have p: "prefix (results ?s) (drained ?t)"
    and q: "sum_list (map result.scaled (results ?s)) \<le> summary.scaled (Summary 2 1 1 True)"
    by blast+
  show ?thesis
    apply (rule exI [of _ ?s], rule exI [of _ ?t])
    apply (intro conjI)
           apply (rule r)
          apply (rule j)
         apply simp
        apply (rule e)
       apply (rule b)
      apply (rule c)
     apply (rule p)
    apply (rule q)
    done
qed

end
